theory Spec2Isabelle
  imports Main "HOL-Library.Word" "HOL-Library.Sublist" "HOL-Library.Char_ord"
    "HOL-Library.List_Lexorder"
begin

unbundle bit_operations_syntax

section \<open>Partial bucket checksums (PostgresSyncRulesStorage.getChecksumsInternal)\<close>

text \<open>
  The table \<^verbatim>\<open>bucket_data\<close>, restricted to the columns the checksum query reads.
  \<^verbatim>\<open>op_id\<close> and \<^verbatim>\<open>checksum\<close> are \<^verbatim>\<open>BIGINT\<close> columns; Postgres sums
  \<^verbatim>\<open>BIGINT\<close>s into a \<^verbatim>\<open>NUMERIC\<close>, so the sum itself never wraps and is an
  \<^typ>\<open>int\<close> here.
\<close>

datatype OpType = PUT | REMOVE | MOVE | CLEAR

record bucket_data_row =
  group_id :: int
  bucket_name :: string
  op_id :: int
  op :: OpType
  checksum :: int

text \<open>A request for the ops of one bucket in \<^verbatim>\<open>(start, end]\<close>; \<^verbatim>\<open>start\<close> is optional.\<close>

record FetchPartialBucketChecksum =
  fp_bucket :: string
  fp_start :: "int option"
  fp_end :: int

record PartialChecksum =
  pc_bucket :: string
  partialCount :: int
  partialChecksum :: int
  isFullChecksum :: bool

text \<open>One row of the query's result.\<close>

record checksum_doc =
  doc_bucket :: string
  checksum_total :: int
  total :: int
  has_clear_op :: int

text \<open>
  \<^verbatim>\<open>rangedBatch\<close>: \<^verbatim>\<open>{bucket, start: String(b.start ?? 0n), end: String(b.end)}\<close>, which
  the query reads back as \<^verbatim>\<open>BIGINT\<close>s.
\<close>

definition rangedBatch :: "FetchPartialBucketChecksum list \<Rightarrow> (string \<times> int \<times> int) list" where
  "rangedBatch batch =
     map (\<lambda>b. (fp_bucket b, (case fp_start b of None \<Rightarrow> 0 | Some s \<Rightarrow> s), fp_end b)) batch"

text \<open>
  The join of \<^verbatim>\<open>bucket_data b\<close> with \<^verbatim>\<open>filter_data f\<close> on
  \<^verbatim>\<open>b.bucket_name = f.bucket_name AND b.op_id > f.start_op_id AND b.op_id <= f.end_op_id\<close>,
  under \<^verbatim>\<open>WHERE b.group_id = group_id\<close>: one row for every pair that matches.
\<close>

definition joined_rows ::
  "int \<Rightarrow> bucket_data_row list \<Rightarrow> (string \<times> int \<times> int) list \<Rightarrow> bucket_data_row list" where
  "joined_rows gid db filters =
     concat (map (\<lambda>(f_bucket, f_start, f_end).
                filter (\<lambda>b. bucket_name b = f_bucket \<and> op_id b > f_start \<and> op_id b \<le> f_end
                            \<and> group_id b = gid) db)
             filters)"

text \<open>
  \<^verbatim>\<open>GROUP BY b.bucket_name\<close> with \<^verbatim>\<open>SUM(b.checksum)\<close>, \<^verbatim>\<open>COUNT(*)\<close> and
  \<^verbatim>\<open>MAX(CASE WHEN b.op = 'CLEAR' THEN 1 ELSE 0 END)\<close>. A bucket without a matching
  row has no group, hence no result row.
\<close>

definition checksums_query ::
  "int \<Rightarrow> bucket_data_row list \<Rightarrow> (string \<times> int \<times> int) list \<Rightarrow> checksum_doc list" where
  "checksums_query gid db filters =
     (let j = joined_rows gid db filters in
      map (\<lambda>name.
             let g = filter (\<lambda>b. bucket_name b = name) j in
             \<lparr>doc_bucket = name,
              checksum_total = sum_list (map checksum g),
              total = int (length g),
              has_clear_op = foldr max (map (\<lambda>b. if op b = CLEAR then 1 else 0) g) 0\<rparr>)
          (remdups (map bucket_name j)))"

text \<open>
  JavaScript's \<^verbatim>\<open>x & y\<close> on Numbers: both operands are taken to signed 32-bit
  integers, and so is the result.
\<close>

definition js_bitand :: "int \<Rightarrow> int \<Rightarrow> int" where
  "js_bitand x y = sint ((word_of_int x :: 32 word) AND word_of_int y)"

text \<open>
  \<^verbatim>\<open>getChecksumsInternal(batch)\<close>: an empty map for an empty batch; otherwise a
  \<^verbatim>\<open>Map\<close> built from the result rows (a later entry of the same key would replace
  an earlier one), with
  \<^verbatim>\<open>partialChecksum: Number(BigInt(doc.checksum_total) & 0xffffffffn) & 0xffffffff\<close>
  and \<^verbatim>\<open>isFullChecksum: doc.has_clear_op == 1\<close>.
\<close>

definition getChecksumsInternal ::
  "int \<Rightarrow> bucket_data_row list \<Rightarrow> FetchPartialBucketChecksum list \<Rightarrow> (string \<rightharpoonup> PartialChecksum)" where
  "getChecksumsInternal gid db batch =
     (if batch = [] then Map.empty
      else map_of (rev (map (\<lambda>doc.
               (doc_bucket doc,
                \<lparr>pc_bucket = doc_bucket doc,
                 partialCount = total doc,
                 partialChecksum = js_bitand (checksum_total doc AND 0xffffffff) 0xffffffff,
                 isFullChecksum = (has_clear_op doc = 1)\<rparr>))
             (checksums_query gid db (rangedBatch batch)))))"

text \<open>The partial checksum of one bucket over \<^verbatim>\<open>(a, c]\<close>, as a single-request batch.\<close>

definition range_checksum ::
  "int \<Rightarrow> bucket_data_row list \<Rightarrow> string \<Rightarrow> int \<Rightarrow> int \<Rightarrow> PartialChecksum option" where
  "range_checksum gid db b a c =
     getChecksumsInternal gid db [\<lparr>fp_bucket = b, fp_start = Some a, fp_end = c\<rparr>] b"

text \<open>Count and checksum of a result, an absent entry standing for no ops.\<close>

definition count_of :: "PartialChecksum option \<Rightarrow> int" where
  "count_of r = (case r of None \<Rightarrow> 0 | Some p \<Rightarrow> partialCount p)"

definition checksum_of :: "PartialChecksum option \<Rightarrow> int" where
  "checksum_of r = (case r of None \<Rightarrow> 0 | Some p \<Rightarrow> partialChecksum p)"

text \<open>32-bit two's-complement addition of two checksums.\<close>

definition add32 :: "int \<Rightarrow> int \<Rightarrow> int" where
  "add32 x y = sint ((word_of_int x :: 32 word) + word_of_int y)"

text \<open>The ops of a bucket in \<^verbatim>\<open>(a, c]\<close>.\<close>

definition ops_in :: "int \<Rightarrow> bucket_data_row list \<Rightarrow> string \<Rightarrow> int \<Rightarrow> int \<Rightarrow> bucket_data_row list" where
  "ops_in gid db b a c =
     filter (\<lambda>r. bucket_name r = b \<and> op_id r > a \<and> op_id r \<le> c \<and> group_id r = gid) db"

definition has_clear_in :: "int \<Rightarrow> bucket_data_row list \<Rightarrow> string \<Rightarrow> int \<Rightarrow> int \<Rightarrow> bool" where
  "has_clear_in gid db b a c = list_ex (\<lambda>r. op r = CLEAR) (ops_in gid db b a c)"

text \<open>
  Modelled from the spec: the compactor that writes \<^verbatim>\<open>CLEAR\<close> ops is not among the
  sources. The spec's data model says that a \<^verbatim>\<open>CLEAR\<close> op at op id \<^verbatim>\<open>k\<close> absorbs
  all ops of its bucket with an op id up to \<^verbatim>\<open>k\<close>: no earlier op of the bucket is
  left in the table.
\<close>

definition clear_absorbs :: "int \<Rightarrow> bucket_data_row list \<Rightarrow> string \<Rightarrow> bool" where
  "clear_absorbs gid db b =
     list_all (\<lambda>r. group_id r = gid \<and> bucket_name r = b \<and> op r = CLEAR \<longrightarrow>
        list_all (\<lambda>r'. group_id r' = gid \<and> bucket_name r' = b \<longrightarrow> op_id r \<le> op_id r') db) db"

text \<open>
  A table for the examples: group 1 holds bucket \<^verbatim>\<open>b\<close> with a \<^verbatim>\<open>CLEAR\<close> at 2 and
  three later ops, whose checksums wrap around 32 bits when added, and one op of
  bucket \<^verbatim>\<open>c\<close>; group 2 holds one op.
\<close>

definition example_db :: "bucket_data_row list" where
  "example_db =
     [\<lparr>group_id = 1, bucket_name = ''b'', op_id = 2, op = CLEAR, checksum = 7\<rparr>,
      \<lparr>group_id = 1, bucket_name = ''b'', op_id = 3, op = PUT, checksum = 2147483647\<rparr>,
      \<lparr>group_id = 1, bucket_name = ''c'', op_id = 4, op = PUT, checksum = 11\<rparr>,
      \<lparr>group_id = 1, bucket_name = ''b'', op_id = 5, op = REMOVE, checksum = 2147483647\<rparr>,
      \<lparr>group_id = 2, bucket_name = ''b'', op_id = 5, op = PUT, checksum = 1\<rparr>,
      \<lparr>group_id = 1, bucket_name = ''b'', op_id = 8, op = PUT, checksum = -5\<rparr>]"

section \<open>Per-connection checkpoint state (BucketChecksumState)\<close>

text \<open>
  \<^verbatim>\<open>BucketChecksumState\<close> (service-core, \<^verbatim>\<open>sync/BucketChecksumState.ts\<close>) keeps,
  per connection, the position of every bucket (\<^verbatim>\<open>bucketDataPositions\<close>, a
  \<^verbatim>\<open>Map<string, BucketSyncState>\<close>), the checksums last sent, the last write
  checkpoint and the set of buckets whose download is still pending. Op ids are
  JavaScript \<^verbatim>\<open>bigint\<close>s, hence \<^typ>\<open>int\<close>.
\<close>

record BucketDescription =
  bucket :: string
  priority :: int

record BucketSyncState =
  description :: "BucketDescription option"
  start_op_id :: int

record BucketChecksum =
  bc_bucket :: string
  bc_checksum :: int
  bc_count :: int

record BucketChecksumState =
  bucketDataPositions :: "string \<rightharpoonup> BucketSyncState"
  lastChecksums :: "(string \<rightharpoonup> BucketChecksum) option"
  lastWriteCheckpoint :: "int option"
  pendingBucketDownloads :: "string set"

text \<open>
  \<^verbatim>\<open>updateBucketPosition({bucket, nextAfter, hasMore})\<close>: the entry of the bucket, when
  there is one, gets \<^verbatim>\<open>start_op_id = nextAfter\<close> (the object stored in the map is
  mutated in place, its description is kept); when \<^verbatim>\<open>hasMore\<close> is false the bucket
  is deleted from the pending set.
\<close>

definition updateBucketPosition ::
  "BucketChecksumState \<Rightarrow> string \<Rightarrow> int \<Rightarrow> bool \<Rightarrow> BucketChecksumState" where
  "updateBucketPosition s b nextAfter hasMore =
     (let s1 = (case bucketDataPositions s b of
                  Some state \<Rightarrow>
                    s\<lparr>bucketDataPositions :=
                        (bucketDataPositions s)(b \<mapsto> state\<lparr>start_op_id := nextAfter\<rparr>)\<rparr>
                | None \<Rightarrow> s)
      in if \<not> hasMore
         then s1\<lparr>pendingBucketDownloads := pendingBucketDownloads s1 - {b}\<rparr>
         else s1)"

text \<open>
  A state tracking \<^verbatim>\<open>a\<close> (at 3) and \<^verbatim>\<open>b\<close> (at 5), both pending.
\<close>

definition frame_state :: BucketChecksumState where
  "frame_state =
     \<lparr>bucketDataPositions =
        [''a'' \<mapsto> \<lparr>description = None, start_op_id = 3\<rparr>,
         ''b'' \<mapsto> \<lparr>description = None, start_op_id = 5\<rparr>],
      lastChecksums = None, lastWriteCheckpoint = Some 2,
      pendingBucketDownloads = {''a'', ''b''}\<rparr>"

section \<open>The sync stream (sync.ts)\<close>

text \<open>
  What the stream yields for the data of a checkpoint: a data frame of one bucket
  (\<^verbatim>\<open>StreamingSyncData\<close>, here the bucket, the number of ops and \<^verbatim>\<open>next_after\<close>),
  the \<^verbatim>\<open>null\<close> flush hint, and the two completion lines with their
  \<^verbatim>\<open>last_op_id\<close>. The checkpoint is an op id, read with \<^verbatim>\<open>BigInt(checkpoint)\<close>.
\<close>

datatype sync_line =
    SyncData string nat int
  | NullLine
  | PartialCheckpointComplete int int
  | CheckpointComplete int

text \<open>\<^verbatim>\<open>BucketDataBatchResult\<close>: \<^verbatim>\<open>{done, data}\<close>.\<close>

type_synonym BucketDataBatchResult = "bool \<times> sync_line"

text \<open>
  One element of the iterator \<^verbatim>\<open>storage.getBucketDataBatch(checkpoint, filteredBuckets)\<close>,
  \<^verbatim>\<open>{batch: r, targetOp}\<close>, together with what the loop reads from its surroundings
  while it handles the element: whether \<^verbatim>\<open>abort_connection\<close> is aborted when the
  element arrives, whether the encoded frame is longer than 50000, and whether
  \<^verbatim>\<open>abort_batch\<close> is aborted once the element has been sent.
\<close>

record chunk =
  c_bucket :: string
  c_data_length :: nat
  c_next_after :: int
  c_has_more :: bool
  c_targetOp :: "int option"
  c_connection_aborted :: bool
  c_frame_large :: bool
  c_batch_aborted :: bool

text \<open>The locals of \<^verbatim>\<open>bucketDataBatch\<close>, with what it has yielded and reported so far.\<close>

record batch_state =
  has_more :: bool
  checkpointInvalidated :: bool
  yielded :: "BucketDataBatchResult list"
  rows_sent :: nat
  positions :: "(string \<times> int) list"

definition initial_batch_state :: batch_state where
  "initial_batch_state =
     \<lparr>has_more = False, checkpointInvalidated = False, yielded = [], rows_sent = 0,
      positions = []\<rparr>"

text \<open>How the \<^verbatim>\<open>for await\<close> loop ends: by \<^verbatim>\<open>return\<close>, or at its end or by \<^verbatim>\<open>break\<close>.\<close>

datatype loop_exit = Returned batch_state | Finished batch_state

fun exit_state :: "loop_exit \<Rightarrow> batch_state" where
  "exit_state (Returned st) = st"
| "exit_state (Finished st) = st"

text \<open>
  The head of the loop body: \<^verbatim>\<open>if (r.has_more) has_more = true\<close> and
  \<^verbatim>\<open>if (targetOp != null && targetOp > checkpointOp) checkpointInvalidated = true\<close>.
\<close>

definition note_chunk :: "int \<Rightarrow> chunk \<Rightarrow> batch_state \<Rightarrow> batch_state" where
  "note_chunk checkpointOp r st =
     st\<lparr>has_more := (if c_has_more r then True else has_more st),
        checkpointInvalidated :=
          (case c_targetOp r of
             Some t \<Rightarrow> (if t > checkpointOp then True else checkpointInvalidated st)
           | None \<Rightarrow> checkpointInvalidated st)\<rparr>"

text \<open>
  Sending a chunk that holds data: the frame is yielded, after a frame longer than
  50000 the flush hint too, then \<^verbatim>\<open>onRowsSent(r.data.length)\<close> and the new
  position of the bucket.
\<close>

definition send_chunk :: "chunk \<Rightarrow> batch_state \<Rightarrow> batch_state" where
  "send_chunk r st =
     st\<lparr>yielded := yielded st
          @ [(False, SyncData (c_bucket r) (c_data_length r) (c_next_after r))]
          @ (if c_frame_large r then [(False, NullLine)] else []),
        rows_sent := rows_sent st + c_data_length r,
        positions := positions st @ [(c_bucket r, c_next_after r)]\<rparr>"

text \<open>
  The loop over the chunks: \<^verbatim>\<open>return\<close> when the connection is aborted; note the
  chunk; \<^verbatim>\<open>continue\<close> on an empty chunk; send it; \<^verbatim>\<open>break\<close> when the batch is
  aborted.
\<close>

fun batch_loop :: "int \<Rightarrow> chunk list \<Rightarrow> batch_state \<Rightarrow> loop_exit" where
  "batch_loop checkpointOp [] st = Finished st"
| "batch_loop checkpointOp (r # rs) st =
     (if c_connection_aborted r then Returned st
      else
        let st1 = note_chunk checkpointOp r st
        in if c_data_length r = 0 then batch_loop checkpointOp rs st1
           else
             let st2 = send_chunk r st1
             in if c_batch_aborted r then Finished st2
                else batch_loop checkpointOp rs st2)"

text \<open>
  \<^verbatim>\<open>bucketDataBatch(request)\<close>: nothing when the semaphore wait was aborted; the
  loop; and after a loop that was not left by \<^verbatim>\<open>return\<close>, when \<^verbatim>\<open>has_more\<close> is
  false, one last result with \<^verbatim>\<open>done: true\<close>: \<^verbatim>\<open>null\<close> for an invalidated
  checkpoint, else the partial completion line for \<^verbatim>\<open>forPriority\<close>, or the
  completion line when \<^verbatim>\<open>forPriority\<close> is undefined.
\<close>

record BucketDataRequest =
  checkpoint :: int
  bucketsToFetch :: "BucketDescription list"
  forPriority :: "int option"

definition bucketDataBatch ::
  "BucketDataRequest \<Rightarrow> bool \<Rightarrow> chunk list \<Rightarrow> BucketDataBatchResult list" where
  "bucketDataBatch request acquired chunks =
     (if \<not> acquired then []
      else case batch_loop (checkpoint request) chunks initial_batch_state of
             Returned st \<Rightarrow> yielded st
           | Finished st \<Rightarrow>
               yielded st @
               (if \<not> has_more st then
                  (if checkpointInvalidated st then [(True, NullLine)]
                   else (case forPriority request of
                           Some p \<Rightarrow> [(True, PartialCheckpointComplete (checkpoint request) p)]
                         | None \<Rightarrow> [(True, CheckpointComplete (checkpoint request))]))
                else []))"

text \<open>The chunks the loop handles: those before a connection abort or a break.\<close>

fun handled :: "chunk list \<Rightarrow> chunk list" where
  "handled [] = []"
| "handled (r # rs) =
     (if c_connection_aborted r then []
      else if c_data_length r \<noteq> 0 \<and> c_batch_aborted r then [r]
      else r # handled rs)"

text \<open>Whether the loop is left by \<^verbatim>\<open>return\<close>, on an aborted connection.\<close>

fun connection_cut :: "chunk list \<Rightarrow> bool" where
  "connection_cut [] = False"
| "connection_cut (r # rs) =
     (if c_connection_aborted r then True
      else if c_data_length r \<noteq> 0 \<and> c_batch_aborted r then False
      else connection_cut rs)"

definition points_past :: "int \<Rightarrow> chunk \<Rightarrow> bool" where
  "points_past checkpointOp r = (case c_targetOp r of Some t \<Rightarrow> t > checkpointOp | None \<Rightarrow> False)"

fun is_completion :: "sync_line \<Rightarrow> bool" where
  "is_completion (PartialCheckpointComplete l p) = True"
| "is_completion (CheckpointComplete l) = True"
| "is_completion l = False"

definition completion_lines :: "BucketDataBatchResult list \<Rightarrow> sync_line list" where
  "completion_lines res = filter is_completion (map snd res)"

text \<open>The completion line of a request: partial for a priority, else full.\<close>

definition completion_for :: "BucketDataRequest \<Rightarrow> sync_line" where
  "completion_for request =
     (case forPriority request of
        Some p \<Rightarrow> PartialCheckpointComplete (checkpoint request) p
      | None \<Rightarrow> CheckpointComplete (checkpoint request))"

text \<open>
  One call of \<^verbatim>\<open>bucketDataBatch\<close> as \<^verbatim>\<open>bucketDataInBatches\<close> sees it: whether
  \<^verbatim>\<open>abort_connection\<close> is aborted when the \<^verbatim>\<open>while\<close> condition is read, whether the
  semaphore was acquired, and the chunks storage returns.
\<close>

record round =
  r_connection_aborted :: bool
  r_acquired :: bool
  r_chunks :: "chunk list"

text \<open>
  \<^verbatim>\<open>bucketDataInBatches\<close>: call \<^verbatim>\<open>bucketDataBatch\<close> until one call yields
  \<^verbatim>\<open>done: true\<close> or the connection is aborted, passing the data on. The loop has no
  bound of its own; the rounds given are the calls it makes, and \<^term>\<open>None\<close> says
  that it is still running after them.
\<close>

fun bucketDataInBatches :: "BucketDataRequest \<Rightarrow> round list \<Rightarrow> sync_line list option" where
  "bucketDataInBatches request [] = None"
| "bucketDataInBatches request (r # rs) =
     (if r_connection_aborted r then Some []
      else
        let res = bucketDataBatch request (r_acquired r) (r_chunks r) in
        if list_ex fst res then Some (map snd res)
        else (case bucketDataInBatches request rs of
                None \<Rightarrow> None
              | Some later \<Rightarrow> Some (map snd res @ later)))"

text \<open>
  \<^verbatim>\<open>Map.groupBy(bucketsToFetch, (bucket) => bucket.priority)\<close>: the groups in the order
  in which their keys first occur, each in the order of the list.
\<close>

definition groupBy_priority :: "BucketDescription list \<Rightarrow> (int \<times> BucketDescription list) list" where
  "groupBy_priority bs =
     map (\<lambda>p. (p, filter (\<lambda>b. priority b = p) bs)) (rev (remdups (rev (map priority bs))))"

text \<open>
  \<^verbatim>\<open>bucketsByPriority.sort((a, b) => b[0] - a[0])\<close>: the comparator is negative, and
  \<^verbatim>\<open>a\<close> goes first, when \<^verbatim>\<open>a[0] > b[0]\<close>; the sort is stable.
\<close>

definition bucketsByPriority :: "BucketDescription list \<Rightarrow> (int \<times> BucketDescription list) list" where
  "bucketsByPriority bs = sort_key (\<lambda>g. - fst g) (groupBy_priority bs)"

text \<open>\<^verbatim>\<open>bucketsByPriority.at(-1)?.[0]\<close>.\<close>

definition lowestPriority :: "(int \<times> BucketDescription list) list \<Rightarrow> int option" where
  "lowestPriority groups = (if groups = [] then None else Some (fst (last groups)))"

text \<open>
  What the loop over the groups reads for one group: whether
  \<^verbatim>\<open>abortCheckpointSignal\<close> is aborted when the group is reached, and the rounds of
  its \<^verbatim>\<open>bucketDataInBatches\<close>.
\<close>

record group_run =
  g_batch_aborted :: bool
  g_rounds :: "round list"

text \<open>
  The loop \<^verbatim>\<open>for (const [priority, buckets] of bucketsByPriority)\<close>: \<^verbatim>\<open>break\<close> when
  the batch is aborted; else fetch the group, with
  \<^verbatim>\<open>forPriority: !isLast ? priority : undefined\<close> where
  \<^verbatim>\<open>isLast = priority === lowestPriority\<close>. The run of a group is looked up by its
  priority, so that it does not depend on the order in which the groups are taken.
\<close>

fun fetch_groups ::
  "int \<Rightarrow> int option \<Rightarrow> (int \<Rightarrow> group_run) \<Rightarrow> (int \<times> BucketDescription list) list
     \<Rightarrow> sync_line list option" where
  "fetch_groups cp lowest run_of [] = Some []"
| "fetch_groups cp lowest run_of (g # gs) =
     (if g_batch_aborted (run_of (fst g)) then Some []
      else
        let isLast = (Some (fst g) = lowest) in
        case bucketDataInBatches
               \<lparr>checkpoint = cp, bucketsToFetch = snd g,
                forPriority = (if \<not> isLast then Some (fst g) else None)\<rparr>
               (g_rounds (run_of (fst g))) of
          None \<Rightarrow> None
        | Some ls \<Rightarrow>
            (case fetch_groups cp lowest run_of gs of
               None \<Rightarrow> None
             | Some later \<Rightarrow> Some (ls @ later)))"

text \<open>
  The data of one checkpoint iteration of \<^verbatim>\<open>streamResponseInner\<close>, after the
  checkpoint line: the groups of \<^verbatim>\<open>bucketsToFetch\<close> in the sorted order.
\<close>

definition checkpoint_iteration ::
  "int \<Rightarrow> BucketDescription list \<Rightarrow> (int \<Rightarrow> group_run) \<Rightarrow> sync_line list option" where
  "checkpoint_iteration cp toFetch run_of =
     (let groups = bucketsByPriority toFetch in
      fetch_groups cp (lowestPriority groups) run_of groups)"

text \<open>
  Examples. A chunk of two ops that ends its bucket, and one whose target op lies
  past checkpoint 10; a request at checkpoint 10 for a full completion; the run of a
  group that is fetched in one round of one chunk; two buckets to fetch, \<^verbatim>\<open>a\<close> of
  priority 0 and \<^verbatim>\<open>b\<close> of priority 3, and their runs.
\<close>

definition plain_chunk :: "string \<Rightarrow> chunk" where
  "plain_chunk b =
     \<lparr>c_bucket = b, c_data_length = 2, c_next_after = 7, c_has_more = False,
      c_targetOp = None, c_connection_aborted = False, c_frame_large = False,
      c_batch_aborted = False\<rparr>"

definition past_chunk :: "string \<Rightarrow> chunk" where
  "past_chunk b = (plain_chunk b)\<lparr>c_targetOp := Some 11\<rparr>"

definition full_request :: BucketDataRequest where
  "full_request = \<lparr>checkpoint = 10, bucketsToFetch = [], forPriority = None\<rparr>"

definition plain_run :: "string \<Rightarrow> group_run" where
  "plain_run b =
     \<lparr>g_batch_aborted = False,
      g_rounds = [\<lparr>r_connection_aborted = False, r_acquired = True,
                   r_chunks = [plain_chunk b]\<rparr>]\<rparr>"

definition two_priorities :: "BucketDescription list" where
  "two_priorities = [\<lparr>bucket = ''a'', priority = 0\<rparr>, \<lparr>bucket = ''b'', priority = 3\<rparr>]"

definition two_runs :: "int \<Rightarrow> group_run" where
  "two_runs p = (if p = 0 then plain_run ''a'' else plain_run ''b'')"

section \<open>MongoDB log sequence numbers (MongoLSN)\<close>

text \<open>
  \<^verbatim>\<open>mongo.Timestamp\<close> is the BSON library's \<^verbatim>\<open>Timestamp\<close>, a \<^verbatim>\<open>Long\<close>: the cluster
  time \<^verbatim>\<open>t\<close> (seconds) is its high word and the ordinal \<^verbatim>\<open>i\<close> its low word. The
  library keeps the two words in the fields \<^verbatim>\<open>high\<close> and \<^verbatim>\<open>low\<close> as signed 32-bit
  values (its constructor stores \<^verbatim>\<open>high | 0\<close> and \<^verbatim>\<open>low | 0\<close>), so the Number that
  \<^verbatim>\<open>timestamp.high\<close> reads is \<^term>\<open>sint\<close> of the word; as a timestamp the words
  are unsigned.
\<close>

record Timestamp =
  high :: "32 word"
  low :: "32 word"

definition timestamp_of :: "Timestamp \<Rightarrow> int" where
  "timestamp_of ts = uint (high ts) * 2 ^ 32 + uint (low ts)"

text \<open>
  \<^verbatim>\<open>MongoLSNSpecification\<close>. The resume token is kept as the base64 text of its BSON
  serialisation, which is all that \<^verbatim>\<open>comparable\<close> reads of it; \<^verbatim>\<open>null\<close> and
  \<^verbatim>\<open>undefined\<close> are \<^term>\<open>None\<close>.
\<close>

record MongoLSN =
  timestamp :: Timestamp
  resume_token :: "string option"

text \<open>\<^verbatim>\<open>ZERO_LSN\<close> and \<^verbatim>\<open>DELIMINATOR\<close>.\<close>

definition ZERO_LSN :: string where
  "ZERO_LSN = ''0000000000000000''"

definition DELIMINATOR :: char where
  "DELIMINATOR = CHR ''|''"

text \<open>
  \<^verbatim>\<open>Number.prototype.toString(16)\<close> on an integer: the digits of the absolute value,
  most significant first, in lower case, after a minus sign for a negative number.
\<close>

definition hex_digit :: "nat \<Rightarrow> char" where
  "hex_digit d = ''0123456789abcdef'' ! d"

function to_hex :: "int \<Rightarrow> string" where
  "to_hex n =
     (if n < 16 then [hex_digit (nat n)]
      else to_hex (n div 16) @ [hex_digit (nat (n mod 16))])"
  by pat_completeness auto
termination
  by (relation "measure nat") auto

definition toString16 :: "int \<Rightarrow> string" where
  "toString16 x = (if x < 0 then CHR ''-'' # to_hex (- x) else to_hex x)"

text \<open>\<^verbatim>\<open>String.prototype.padStart(n, c)\<close> for a one-character filler.\<close>

definition padStart :: "nat \<Rightarrow> char \<Rightarrow> string \<Rightarrow> string" where
  "padStart n c s = replicate (n - length s) c @ s"

text \<open>
  The getter \<^verbatim>\<open>comparable\<close>: \<^verbatim>\<open>timestamp.high.toString(16).padStart(8, '0')\<close>, the
  same for \<^verbatim>\<open>low\<close>, the two joined; a resume token adds a second segment after
  the delimiter.
\<close>

definition comparable :: "MongoLSN \<Rightarrow> string" where
  "comparable lsn =
     (let a = padStart 8 (CHR ''0'') (toString16 (sint (high (timestamp lsn))));
          b = padStart 8 (CHR ''0'') (toString16 (sint (low (timestamp lsn))))
      in case resume_token lsn of
           None \<Rightarrow> a @ b
         | Some tok \<Rightarrow> a @ b @ [DELIMINATOR] @ tok)"

text \<open>
  \<^verbatim>\<open>parseInt(s, 16)\<close>: leading white space is skipped, then an optional sign and an
  optional \<^verbatim>\<open>0x\<close>; the longest run of hexadecimal digits that follows is the
  number, and \<^verbatim>\<open>NaN\<close> (here \<^term>\<open>None\<close>) results when there is no digit.
\<close>

definition hex_value :: "char \<Rightarrow> int option" where
  "hex_value c =
     (let n = of_char c :: int in
      if 48 \<le> n \<and> n \<le> 57 then Some (n - 48)
      else if 97 \<le> n \<and> n \<le> 102 then Some (n - 87)
      else if 65 \<le> n \<and> n \<le> 70 then Some (n - 55)
      else None)"

fun parse_digits :: "int \<Rightarrow> string \<Rightarrow> int" where
  "parse_digits acc [] = acc"
| "parse_digits acc (c # cs) =
     (case hex_value c of None \<Rightarrow> acc | Some d \<Rightarrow> parse_digits (acc * 16 + d) cs)"

definition is_space :: "char \<Rightarrow> bool" where
  "is_space c = (of_char c \<in> {9, 10, 11, 12, 13, 32 :: int})"

definition strip_0x :: "string \<Rightarrow> string" where
  "strip_0x s =
     (case s of
        c # d # cs \<Rightarrow> (if c = CHR ''0'' \<and> (d = CHR ''x'' \<or> d = CHR ''X'') then cs else s)
      | _ \<Rightarrow> s)"

definition parse_unsigned :: "string \<Rightarrow> int option" where
  "parse_unsigned s =
     (let ds = strip_0x s in
      case ds of
        [] \<Rightarrow> None
      | c # cs \<Rightarrow> (if hex_value c = None then None else Some (parse_digits 0 ds)))"

definition parseInt16 :: "string \<Rightarrow> int option" where
  "parseInt16 s =
     (case dropWhile is_space s of
        [] \<Rightarrow> None
      | c # cs \<Rightarrow>
          if c = CHR ''-'' then map_option uminus (parse_unsigned cs)
          else if c = CHR ''+'' then parse_unsigned cs
          else parse_unsigned (c # cs))"

text \<open>
  \<^verbatim>\<open>Timestamp.fromBits(lowBits, highBits)\<close> builds the timestamp from
  \<^verbatim>\<open>{i: lowBits, t: highBits}\<close>; the constructor refuses a part that is
  \<^verbatim>\<open>NaN\<close>, negative or above \<^verbatim>\<open>0xffffffff\<close>.
\<close>

datatype lsn_error = InvalidTimestamp | InvalidResumeToken

definition fromBits :: "int option \<Rightarrow> int option \<Rightarrow> lsn_error + Timestamp" where
  "fromBits lowBits highBits =
     (case (lowBits, highBits) of
        (Some i, Some t) \<Rightarrow>
          if 0 \<le> t \<and> t \<le> 0xffffffff \<and> 0 \<le> i \<and> i \<le> 0xffffffff
          then Inr \<lparr>high = word_of_int t, low = word_of_int i\<rparr>
          else Inl InvalidTimestamp
      | _ \<Rightarrow> Inl InvalidTimestamp)"

text \<open>
  \<^verbatim>\<open>comparable.split(DELIMINATOR)\<close>, of which \<^verbatim>\<open>deserialize\<close> reads the first two
  segments.
\<close>

definition first_segment :: "string \<Rightarrow> string" where
  "first_segment s = takeWhile (\<lambda>c. c \<noteq> DELIMINATOR) s"

definition second_segment :: "string \<Rightarrow> string option" where
  "second_segment s =
     (case dropWhile (\<lambda>c. c \<noteq> DELIMINATOR) s of
        [] \<Rightarrow> None
      | d # r \<Rightarrow> Some (takeWhile (\<lambda>c. c \<noteq> DELIMINATOR) r))"

text \<open>
  \<^verbatim>\<open>MongoLSN.fromSerialized\<close>, through \<^verbatim>\<open>deserialize\<close>: the two halves of the first
  segment are parsed with \<^verbatim>\<open>parseInt(_, 16)\<close> and made a timestamp; then an empty
  or missing second segment gives no resume token, and any other is read with
  \<^verbatim>\<open>storage.deserializeBson(Buffer.from(resumeString, 'base64')).resumeToken\<close>.
  \<^verbatim>\<open>deserializeBson\<close> is service-core's and not among the sources: what it makes
  of a segment is the parameter \<open>deserializeToken\<close>, which fails on a text that is
  not the serialisation of a document, and else gives the resume token the
  document holds, if it holds one.
\<close>

definition fromSerialized ::
  "(string \<Rightarrow> lsn_error + string option) \<Rightarrow> string \<Rightarrow> lsn_error + MongoLSN" where
  "fromSerialized deserializeToken s =
     (let timestampString = first_segment s;
          a = parseInt16 (take 8 timestampString);
          b = parseInt16 (take 8 (drop 8 timestampString))
      in case fromBits b a of
           Inl e \<Rightarrow> Inl e
         | Inr ts \<Rightarrow>
             (case second_segment s of
                None \<Rightarrow> Inr \<lparr>timestamp = ts, resume_token = None\<rparr>
              | Some r \<Rightarrow>
                  if r = [] then Inr \<lparr>timestamp = ts, resume_token = None\<rparr>
                  else (case deserializeToken r of
                          Inl e \<Rightarrow> Inl e
                        | Inr tok \<Rightarrow> Inr \<lparr>timestamp = ts, resume_token = tok\<rparr>)))"

text \<open>
  Two sequence numbers for the examples: cluster time 1, and cluster time
  \<^verbatim>\<open>0x80000000\<close> (19 January 2038), both with ordinal 0 and without a token.
\<close>

definition lsn_early :: MongoLSN where
  "lsn_early = \<lparr>timestamp = \<lparr>high = 1, low = 0\<rparr>, resume_token = None\<rparr>"

definition lsn_2038 :: MongoLSN where
  "lsn_2038 = \<lparr>timestamp = \<lparr>high = 0x80000000, low = 0\<rparr>, resume_token = None\<rparr>"

section \<open>Checkpoint commits of the replication batch (MongoBucketBatch)\<close>

text \<open>
  The stored state that \<^verbatim>\<open>commit\<close> and \<^verbatim>\<open>keepalive\<close> touch: the documents of
  \<^verbatim>\<open>sync_rules\<close>, the collection \<^verbatim>\<open>write_checkpoints\<close> (of whose documents only
  \<^verbatim>\<open>lsns.1\<close> and \<^verbatim>\<open>processed_at_lsn\<close> are read), the custom write checkpoints, the
  op ids of the bucket ops written, and the number of \<^verbatim>\<open>notifyCheckpoint()\<close> calls.
  LSNs are strings, compared as JavaScript compares strings; dates are numbers.

  A custom write checkpoint is a \<^verbatim>\<open>storage.CustomWriteCheckpointOptions\<close>, a type of
  service-core: what the caller gave, kept as text, with the \<^verbatim>\<open>sync_rules_id\<close> that
  \<^verbatim>\<open>addCustomWriteCheckpoint\<close> adds.

  Modelled from the spec: \<^verbatim>\<open>batchCreateCustomWriteCheckpoints\<close> (of
  \<^verbatim>\<open>MongoWriteCheckpointAPI\<close>) is not among the sources. Each call of it is kept,
  with the checkpoints and the op id it was given, in \<open>custom_checkpoint_writes\<close>;
  it does not write to \<^verbatim>\<open>write_checkpoints\<close>, whose documents
  \<^verbatim>\<open>{user_id, client_id, lsns, processed_at_lsn, checkpoint}\<close> are the managed write
  checkpoints.
\<close>

type_synonym CustomWriteCheckpoint = "string \<times> int"

datatype SyncRuleState = PROCESSING | ACTIVE | STOP | TERMINATED | ERRORED

record SyncRuleDocument =
  d_id :: int
  d_state :: SyncRuleState
  d_last_checkpoint :: "int option"
  d_last_checkpoint_lsn :: "string option"
  d_last_checkpoint_ts :: "int option"
  d_last_keepalive_ts :: "int option"
  d_snapshot_done :: bool
  d_snapshot_lsn :: "string option"
  d_last_fatal_error :: "string option"
  d_keepalive_op :: "int option"

record WriteCheckpoint =
  wc_lsn1 :: "string option"
  wc_processed_at_lsn :: "string option"

record storage_db =
  sync_rules :: "SyncRuleDocument list"
  write_checkpoints :: "WriteCheckpoint list"
  custom_checkpoint_writes :: "(CustomWriteCheckpoint list \<times> int) list"
  bucket_ops :: "int list"
  notifications :: nat

text \<open>
  The fields of the batch: \<open>has_batch\<close> stands for \<^verbatim>\<open>this.batch != null\<close>, and
  \<^verbatim>\<open>write_checkpoint_batch\<close> holds the custom write checkpoints not yet written.
\<close>

record MongoBucketBatch =
  b_group_id :: int
  last_checkpoint_lsn :: "string option"
  no_checkpoint_before_lsn :: string
  persisted_op :: "int option"
  needsActivation :: bool
  has_batch :: bool
  write_checkpoint_batch :: "CustomWriteCheckpoint list"

text \<open>\<^verbatim>\<open>addCustomWriteCheckpoint(checkpoint)\<close>.\<close>

definition addCustomWriteCheckpoint :: "MongoBucketBatch \<Rightarrow> string \<Rightarrow> MongoBucketBatch" where
  "addCustomWriteCheckpoint st given =
     st\<lparr>write_checkpoint_batch := write_checkpoint_batch st @ [(given, b_group_id st)]\<rparr>"

text \<open>
  The condition of the loop in \<^verbatim>\<open>flush\<close>:
  \<^verbatim>\<open>this.batch != null || this.write_checkpoint_batch.length > 0\<close>.
\<close>

definition pending :: "MongoBucketBatch \<Rightarrow> bool" where
  "pending st \<longleftrightarrow> has_batch st \<or> write_checkpoint_batch st \<noteq> []"

datatype batch_error = FlushError string

text \<open>
  What a call reads from its surroundings: the outcome of the transactions of a
  flush (an error, or the last op id and the op ids of the bucket ops that
  \<^verbatim>\<open>replicateBatch\<close> wrote), the op id that \<^verbatim>\<open>opSeq.next()\<close> gives for the custom
  write checkpoints, and the clock.
\<close>

record batch_env =
  flush_outcome :: "batch_error + (int \<times> int list)"
  next_op :: int
  now :: int

text \<open>\<^verbatim>\<open>updateOne({_id: id}, {$set: ...})\<close> on \<^verbatim>\<open>sync_rules\<close>: the first document of that id.\<close>

fun updateOne :: "int \<Rightarrow> (SyncRuleDocument \<Rightarrow> SyncRuleDocument) \<Rightarrow> SyncRuleDocument list
    \<Rightarrow> SyncRuleDocument list" where
  "updateOne i f [] = []"
| "updateOne i f (d # ds) = (if d_id d = i then f d # ds else d # updateOne i f ds)"

definition notifyCheckpoint :: "storage_db \<Rightarrow> storage_db" where
  "notifyCheckpoint db = db\<lparr>notifications := Suc (notifications db)\<rparr>"

text \<open>
  \<^verbatim>\<open>flush\<close>, with \<^verbatim>\<open>flushInner\<close>: without pending work nothing happens; else the
  batch, if there is one, is replicated in replication transactions, the custom
  write checkpoints, if there are any, are written in the first of them and the
  list is emptied, every transaction sets \<^verbatim>\<open>last_keepalive_ts\<close>, and
  \<^verbatim>\<open>persisted_op\<close> becomes the last op id. Which bucket ops \<^verbatim>\<open>replicateBatch\<close> writes
  is left to the surroundings.
\<close>

definition flush ::
  "MongoBucketBatch \<Rightarrow> storage_db \<Rightarrow> batch_env \<Rightarrow> batch_error + (MongoBucketBatch \<times> storage_db)" where
  "flush st db env =
     (if \<not> pending st then Inr (st, db)
      else case flush_outcome env of
             Inl e \<Rightarrow> Inl e
           | Inr (last_op, ops) \<Rightarrow>
               Inr (st\<lparr>has_batch := False, write_checkpoint_batch := [],
                       persisted_op := Some last_op\<rparr>,
                    db\<lparr>bucket_ops := bucket_ops db @ (if has_batch st then ops else []),
                       custom_checkpoint_writes :=
                         custom_checkpoint_writes db
                         @ (if write_checkpoint_batch st = [] then []
                            else [(write_checkpoint_batch st, next_op env)]),
                       sync_rules := updateOne (b_group_id st)
                          (\<lambda>d. d\<lparr>d_last_keepalive_ts := Some (now env)\<rparr>) (sync_rules db)\<rparr>))"

text \<open>
  \<^verbatim>\<open>autoActivate\<close>: once per batch; a document in state \<^verbatim>\<open>PROCESSING\<close> becomes
  \<^verbatim>\<open>ACTIVE\<close>, the other active or errored ones are stopped, and the checkpoint is
  notified.
\<close>

definition autoActivate :: "MongoBucketBatch \<Rightarrow> storage_db \<Rightarrow> MongoBucketBatch \<times> storage_db" where
  "autoActivate st db =
     (if \<not> needsActivation st then (st, db)
      else
        let activated = (case find (\<lambda>d. d_id d = b_group_id st) (sync_rules db) of
                           None \<Rightarrow> False
                         | Some d \<Rightarrow> d_state d = PROCESSING);
            db1 = (if activated
                   then notifyCheckpoint
                     (db\<lparr>sync_rules :=
                         map (\<lambda>d. if d_id d \<noteq> b_group_id st \<and> (d_state d = ACTIVE \<or> d_state d = ERRORED)
                                   then d\<lparr>d_state := STOP\<rparr> else d)
                           (updateOne (b_group_id st) (\<lambda>d. d\<lparr>d_state := ACTIVE\<rparr>)
                              (sync_rules db))\<rparr>)
                   else db)
        in (st\<lparr>needsActivation := False\<rparr>, db1))"

text \<open>
  \<^verbatim>\<open>updateMany({processed_at_lsn: null, 'lsns.1': {$lte: lsn}}, {$set: {processed_at_lsn: lsn}})\<close>.
\<close>

definition mark_processed :: "string \<Rightarrow> WriteCheckpoint list \<Rightarrow> WriteCheckpoint list" where
  "mark_processed lsn wcs =
     map (\<lambda>w. if wc_processed_at_lsn w = None
                  \<and> (case wc_lsn1 w of None \<Rightarrow> False | Some l \<Rightarrow> l \<le> lsn)
               then w\<lparr>wc_processed_at_lsn := Some lsn\<rparr> else w) wcs"

text \<open>
  \<^verbatim>\<open>commit(lsn, options)\<close>, with \<^verbatim>\<open>createEmptyCheckpoints\<close> as the options give it.
  After the flush: behind the last checkpoint LSN no checkpoint is made; before
  \<^verbatim>\<open>no_checkpoint_before_lsn\<close> only \<^verbatim>\<open>keepalive_op\<close> is stored; with nothing to
  commit and no empty checkpoints wanted the rules are only activated; else the
  checkpoint is written.
\<close>

definition commit ::
  "MongoBucketBatch \<Rightarrow> storage_db \<Rightarrow> string \<Rightarrow> bool \<Rightarrow> batch_env
     \<Rightarrow> batch_error + (bool \<times> MongoBucketBatch \<times> storage_db)" where
  "commit st0 db0 lsn createEmptyCheckpoints env =
     (case flush st0 db0 env of
        Inl e \<Rightarrow> Inl e
      | Inr (st, db) \<Rightarrow>
          if (case last_checkpoint_lsn st of None \<Rightarrow> False | Some l \<Rightarrow> lsn < l)
          then Inr (False, st, db)
          else if lsn < no_checkpoint_before_lsn st
          then Inr (False, st,
                 notifyCheckpoint
                   (db\<lparr>sync_rules := updateOne (b_group_id st)
                         (\<lambda>d. d\<lparr>d_keepalive_op := persisted_op st\<rparr>) (sync_rules db)\<rparr>))
          else if \<not> createEmptyCheckpoints \<and> persisted_op st = None
          then (case autoActivate st db of (st1, db1) \<Rightarrow> Inr (True, st1, db1))
          else
            let db1 = db\<lparr>write_checkpoints := mark_processed lsn (write_checkpoints db)\<rparr>;
                db2 = db1\<lparr>sync_rules := updateOne (b_group_id st)
                        (\<lambda>d. d\<lparr>d_last_checkpoint_lsn := Some lsn,
                               d_last_checkpoint_ts := Some (now env),
                               d_last_keepalive_ts := Some (now env),
                               d_snapshot_done := True,
                               d_last_fatal_error := None,
                               d_keepalive_op := None,
                               d_last_checkpoint :=
                                 (case persisted_op st of
                                    None \<Rightarrow> d_last_checkpoint d
                                  | Some p \<Rightarrow> Some p),
                               d_snapshot_lsn := None\<rparr>)
                        (sync_rules db1)\<rparr>
            in case autoActivate st db2 of
                 (st1, db3) \<Rightarrow>
                   Inr (True, st1\<lparr>persisted_op := None, last_checkpoint_lsn := Some lsn\<rparr>,
                        notifyCheckpoint db3))"

text \<open>
  \<^verbatim>\<open>keepalive(lsn)\<close>: a no-op at or behind the last checkpoint LSN and before
  \<^verbatim>\<open>no_checkpoint_before_lsn\<close>; a commit when an op is persisted (with the default
  options, whose \<^verbatim>\<open>createEmptyCheckpoints\<close> is a parameter here); else the LSN
  is advanced.
\<close>

definition keepalive ::
  "MongoBucketBatch \<Rightarrow> storage_db \<Rightarrow> string \<Rightarrow> bool \<Rightarrow> batch_env
     \<Rightarrow> batch_error + (bool \<times> MongoBucketBatch \<times> storage_db)" where
  "keepalive st db lsn defaultCreateEmptyCheckpoints env =
     (if (case last_checkpoint_lsn st of None \<Rightarrow> False | Some l \<Rightarrow> lsn \<le> l)
      then Inr (False, st, db)
      else if lsn < no_checkpoint_before_lsn st then Inr (False, st, db)
      else if persisted_op st \<noteq> None
      then commit st db lsn defaultCreateEmptyCheckpoints env
      else
        let db1 = db\<lparr>write_checkpoints := mark_processed lsn (write_checkpoints db)\<rparr>;
            db2 = db1\<lparr>sync_rules := updateOne (b_group_id st)
                    (\<lambda>d. d\<lparr>d_last_checkpoint_lsn := Some lsn,
                           d_snapshot_done := True,
                           d_last_fatal_error := None,
                           d_last_keepalive_ts := Some (now env),
                           d_snapshot_lsn := None\<rparr>)
                    (sync_rules db1)\<rparr>
        in case autoActivate st db2 of
             (st1, db3) \<Rightarrow>
               Inr (True, st1\<lparr>last_checkpoint_lsn := Some lsn\<rparr>, notifyCheckpoint db3))"

text \<open>
  The checkpoint a \<^verbatim>\<open>sync_rules\<close> document stores: every field but
  \<^verbatim>\<open>last_keepalive_ts\<close>.
\<close>

definition checkpoint_state ::
  "SyncRuleDocument \<Rightarrow> int \<times> SyncRuleState \<times> int option \<times> string option \<times> int option
     \<times> bool \<times> string option \<times> string option \<times> int option" where
  "checkpoint_state d =
     (d_id d, d_state d, d_last_checkpoint d, d_last_checkpoint_lsn d, d_last_checkpoint_ts d,
      d_snapshot_done d, d_snapshot_lsn d, d_last_fatal_error d, d_keepalive_op d)"

text \<open>The document of a group in \<^verbatim>\<open>sync_rules\<close>, as \<^verbatim>\<open>findOne({_id: id})\<close> gives it.\<close>

definition rules_of :: "storage_db \<Rightarrow> int \<Rightarrow> SyncRuleDocument option" where
  "rules_of db i = find (\<lambda>d. d_id d = i) (sync_rules db)"

text \<open>
  Examples: the rules of group 1, active, with checkpoint 40 at LSN
  \<^verbatim>\<open>0000000A\<close>; a batch at that LSN with op 41 persisted and nothing pending; the
  same batch with a pending batch whose flush writes the ops 42 and 43, and with
  a custom write checkpoint that the flush writes at op 44.
\<close>

definition rules_doc :: SyncRuleDocument where
  "rules_doc =
     \<lparr>d_id = 1, d_state = ACTIVE, d_last_checkpoint = Some 40,
      d_last_checkpoint_lsn = Some ''0000000A'', d_last_checkpoint_ts = Some 100,
      d_last_keepalive_ts = Some 100, d_snapshot_done = True, d_snapshot_lsn = None,
      d_last_fatal_error = None, d_keepalive_op = None\<rparr>"

definition commit_db :: storage_db where
  "commit_db = \<lparr>sync_rules = [rules_doc], write_checkpoints = [],
                custom_checkpoint_writes = [], bucket_ops = [41], notifications = 0\<rparr>"

definition commit_batch :: MongoBucketBatch where
  "commit_batch =
     \<lparr>b_group_id = 1, last_checkpoint_lsn = Some ''0000000A'',
      no_checkpoint_before_lsn = ''00000001'', persisted_op = Some 41,
      needsActivation = False, has_batch = False, write_checkpoint_batch = []\<rparr>"

definition commit_env :: batch_env where
  "commit_env = \<lparr>flush_outcome = Inr (43, [42, 43]), next_op = 44, now = 200\<rparr>"

definition pending_batch :: MongoBucketBatch where
  "pending_batch = addCustomWriteCheckpoint (commit_batch\<lparr>has_batch := True\<rparr>) ''user 1 at 7''"

section \<open>Saving one replicated row (MongoBucketBatch.saveOperation)\<close>

text \<open>
  A replicated row maps its columns to values; a column whose value is
  \<^verbatim>\<open>undefined\<close> (a TOAST placeholder) maps to \<^term>\<open>None\<close>. Values, replica ids
  and parameter lookups are strings here. A \<^verbatim>\<open>bson.Binary\<close> holds the BSON
  serialisation of a row, from which \<^verbatim>\<open>deserializeBson\<close> gives the row back.
\<close>

type_synonym row = "(string \<times> string option) list"

datatype Binary = Binary row

fun deserializeBson :: "Binary \<Rightarrow> row" where
  "deserializeBson (Binary r) = r"

definition MAX_ROW_SIZE :: int where
  "MAX_ROW_SIZE = 15 * 1024 * 1024"

datatype SaveOperationTag = INSERT | UPDATE | DELETE

record SourceTable =
  t_id :: string
  qualifiedName :: string
  syncData :: bool
  syncParameters :: bool

record SaveOptions =
  tag :: SaveOperationTag
  sourceTable :: SourceTable
  before :: "row option"
  after :: "row option"

text \<open>\<^verbatim>\<open>RecordOperation\<close>: the record with its replica ids.\<close>

record RecordOperation =
  op_record :: SaveOptions
  beforeId :: "string option"
  afterId :: "string option"

record CurrentBucket =
  cb_bucket :: string
  cb_table :: string
  cb_id :: string

text \<open>\<^verbatim>\<open>SourceKey\<close>: \<^verbatim>\<open>{g, t, k}\<close>.\<close>

type_synonym SourceKey = "int \<times> string \<times> string option"

record CurrentDataDocument =
  cd_id :: SourceKey
  cd_data :: Binary
  cd_buckets :: "CurrentBucket list"
  cd_lookups :: "string list"

text \<open>What the sync rules make of a row: bucket, output table, id and data.\<close>

record EvaluatedRow =
  e_bucket :: string
  e_table :: string
  e_id :: string
  e_data :: row

record EvaluatedParameters =
  p_lookup :: string
  p_bucket_parameters :: "row list"

text \<open>
  The calls on the \<^verbatim>\<open>PersistedBatch\<close>, in order. \<^verbatim>\<open>saveBucketData\<close> turns the
  \<^verbatim>\<open>before_buckets\<close> that are not evaluated again into \<^verbatim>\<open>REMOVE\<close> ops and every
  evaluated row into a \<^verbatim>\<open>PUT\<close> op; the class itself is not among the sources.
\<close>

datatype batch_call =
    SaveBucketData "string option" "CurrentBucket list" "EvaluatedRow list"
  | SaveParameterData "string option" "string list" "EvaluatedParameters list"
  | UpsertCurrentData SourceKey Binary "CurrentBucket list" "string list"
  | DeleteCurrentData SourceKey

text \<open>
  What goes to telemetry through \<^verbatim>\<open>container.reporter.captureMessage\<close>, as a
  warning: the row that was too big, with the error that was caught (the
  \<^verbatim>\<open>ServiceError\<close> of code \<^verbatim>\<open>PSYNC_S1002\<close> with the length, or the failure of
  \<^verbatim>\<open>bson.serialize\<close>), and the evaluation errors of the sync rules.
\<close>

datatype caught = ROW_TOO_LARGE int | SerializeFailed

datatype report =
    DataTooBig string caught
  | DataQueryFailed string string
  | ParameterQueryFailed string string

datatype save_error = ReplicationAssertionError SaveOperationTag | Uncaught caught

text \<open>The fields of the batch that \<^verbatim>\<open>saveOperation\<close> reads.\<close>

record save_config =
  cfg_group_id :: int
  storeCurrentData :: bool
  skipExistingRows :: bool
  has_markRecordUnavailable :: bool

text \<open>
  What \<^verbatim>\<open>saveOperation\<close> calls outside the class: \<^verbatim>\<open>bson.serialize\<close>, which fails
  on a document that is too large for it and else gives a serialisation of some
  length, and the evaluation of the sync rules.
\<close>

record save_env =
  bson_fails :: "row \<Rightarrow> bool"
  bson_length :: "row \<Rightarrow> int"
  evaluateRowWithErrors :: "SourceTable \<Rightarrow> row \<Rightarrow> EvaluatedRow list \<times> string list"
  evaluateParameterRowWithErrors ::
    "SourceTable \<Rightarrow> row \<Rightarrow> EvaluatedParameters list \<times> string list"

text \<open>
  Modelled from the spec: \<^verbatim>\<open>isCompleteRow\<close> and \<^verbatim>\<open>mergeToast\<close> of service-core are
  not among the sources. A row is complete when none of its columns is a TOAST-like
  placeholder, which is only checked when the current data is stored (``if
  \<^verbatim>\<open>storeCurrentData\<close> is false ... we'll get the full row directly''); merging
  takes the columns that are placeholders from the stored row.
\<close>

definition isCompleteRow :: "bool \<Rightarrow> row \<Rightarrow> bool" where
  "isCompleteRow storeData r = (if \<not> storeData then True else list_all (\<lambda>(k, v). v \<noteq> None) r)"

definition mergeToast :: "row \<Rightarrow> row \<Rightarrow> row" where
  "mergeToast r persisted =
     map (\<lambda>(k, v). (k, case v of None \<Rightarrow> (case map_of persisted k of None \<Rightarrow> None | Some pv \<Rightarrow> pv)
                          | Some x \<Rightarrow> Some x)) r"

text \<open>
  The placeholder of the \<^verbatim>\<open>catch\<close> block:
  \<^verbatim>\<open>Object.fromEntries(Object.entries(after).map(([key, value]) => [key, undefined]))\<close>.
\<close>

definition placeholder :: "row \<Rightarrow> row" where
  "placeholder r = map (\<lambda>(k, v). (k, None)) r"

text \<open>
  The \<^verbatim>\<open>try\<close> block that serialises the row: an error of \<^verbatim>\<open>bson.serialize\<close>, or
  the \<^verbatim>\<open>ServiceError\<close> thrown when \<^verbatim>\<open>afterData.length() > MAX_ROW_SIZE\<close>.
\<close>

definition try_serialize :: "save_env \<Rightarrow> row \<Rightarrow> caught + Binary" where
  "try_serialize env r =
     (if bson_fails env r then Inl SerializeFailed
      else if bson_length env r > MAX_ROW_SIZE then Inl (ROW_TOO_LARGE (bson_length env r))
      else Inr (Binary r))"

text \<open>What a call of \<^verbatim>\<open>saveOperation\<close> does and returns.\<close>

record save_result =
  calls :: "batch_call list"
  reports :: "report list"
  warnings :: nat
  marked_unavailable :: bool
  returned :: "CurrentDataDocument option"

text \<open>A JavaScript condition on a replica id: \<^verbatim>\<open>null\<close> and the empty string are falsy.\<close>

definition truthy :: "string option \<Rightarrow> bool" where
  "truthy i = (case i of None \<Rightarrow> False | Some s \<Rightarrow> s \<noteq> [])"

text \<open>
  Step 3 of \<^verbatim>\<open>saveOperation\<close>, the serialisation of the new row: the row that goes
  on, its serialisation if there is an after id, and the report. Without stored
  current data the serialisation is that of the empty document. So it is for a
  record without a row (\<^verbatim>\<open>after\<close> is \<^verbatim>\<open>undefined\<close>): \<^verbatim>\<open>bson.serialize\<close> makes the
  empty document of it, five bytes long, and nothing is thrown. The \<^verbatim>\<open>catch\<close>
  block serialises the placeholder outside any \<^verbatim>\<open>try\<close>, so a failure there is
  not caught.
\<close>

definition serialize_after ::
  "save_config \<Rightarrow> save_env \<Rightarrow> SourceTable \<Rightarrow> string option \<Rightarrow> row option
     \<Rightarrow> save_error + (row option \<times> Binary option \<times> report list)" where
  "serialize_after cfg env table aid aft =
     (if aid \<noteq> None \<and> \<not> storeCurrentData cfg then Inr (aft, Some (Binary []), [])
      else if aid \<noteq> None then
        (case aft of
           None \<Rightarrow> Inr (None, Some (Binary []), [])
         | Some r \<Rightarrow>
             (case try_serialize env r of
                Inr d \<Rightarrow> Inr (Some r, Some d, [])
              | Inl e \<Rightarrow>
                  if bson_fails env (placeholder r) then Inl (Uncaught SerializeFailed)
                  else Inr (Some (placeholder r), Some (Binary (placeholder r)),
                            [DataTooBig (qualifiedName table) e])))
      else Inr (aft, None, []))"

text \<open>
  The row of an update after the TOAST merge with the stored row, which happens
  when the current data is stored; any other row as it came.
\<close>

definition merged_after :: "save_config \<Rightarrow> SaveOptions \<Rightarrow> CurrentDataDocument option \<Rightarrow> row option" where
  "merged_after cfg rec current_data =
     (case current_data of
        Some cd \<Rightarrow>
          (if tag rec = UPDATE \<and> storeCurrentData cfg
           then Some (mergeToast (case after rec of None \<Rightarrow> [] | Some r \<Rightarrow> r)
                        (deserializeBson (cd_data cd)))
           else after rec)
      | None \<Rightarrow> after rec)"

text \<open>
  \<^verbatim>\<open>saveOperation(batch, operation, current_data, opSeq)\<close>, step by step as in the
  source: the check for \<^verbatim>\<open>skipExistingRows\<close>; the buckets and lookups of the
  stored row, with the TOAST merge of an update; the serialisation; the removal
  under the old id when the id changed; the evaluation of a complete row; the
  current data.
\<close>

definition saveOperation ::
  "save_config \<Rightarrow> save_env \<Rightarrow> RecordOperation \<Rightarrow> CurrentDataDocument option
     \<Rightarrow> save_error + save_result" where
  "saveOperation cfg env operation current_data =
     (let rec = op_record operation;
          bid = beforeId operation;
          aid = afterId operation;
          table = sourceTable rec;
          before_key = (cfg_group_id cfg, t_id table, bid)
      in
      if skipExistingRows cfg \<and> tag rec \<noteq> INSERT
      then Inl (ReplicationAssertionError (tag rec))
      else if skipExistingRows cfg \<and> current_data \<noteq> None
      then Inr \<lparr>calls = [], reports = [], warnings = 0, marked_unavailable = False,
                returned = None\<rparr>
      else
        let incomplete_update =
              (tag rec = UPDATE \<and> current_data = None
               \<and> \<not> isCompleteRow (storeCurrentData cfg) (case after rec of None \<Rightarrow> [] | Some r \<Rightarrow> r));
            marked = (incomplete_update \<and> has_markRecordUnavailable cfg);
            warned =
              (if incomplete_update \<and> \<not> has_markRecordUnavailable cfg then 1
               else if tag rec = DELETE \<and> current_data = None \<and> storeCurrentData cfg
                       \<and> \<not> has_markRecordUnavailable cfg then 1
               else 0);
            existing_buckets0 =
              (case current_data of
                 Some cd \<Rightarrow> (if tag rec = UPDATE \<or> tag rec = DELETE then cd_buckets cd else [])
               | None \<Rightarrow> []);
            existing_lookups0 =
              (case current_data of
                 Some cd \<Rightarrow> (if tag rec = UPDATE \<or> tag rec = DELETE then cd_lookups cd else [])
               | None \<Rightarrow> []);
            after1 = merged_after cfg rec current_data
        in
        case serialize_after cfg env table aid after1 of
          Inl e \<Rightarrow> Inl e
        | Inr (after2, afterData, too_big) \<Rightarrow>
            let id_changed = (bid \<noteq> None \<and> (aid = None \<or> bid \<noteq> aid));
                remove_old =
                  (if id_changed \<and> syncData table
                   then [SaveBucketData bid existing_buckets0 []] else [])
                  @ (if id_changed \<and> syncParameters table
                     then [SaveParameterData bid existing_lookups0 []] else []);
                existing_buckets = (if id_changed \<and> syncData table then [] else existing_buckets0);
                existing_lookups =
                  (if id_changed \<and> syncParameters table then [] else existing_lookups0);
                complete =
                  (truthy aid \<and> (case after2 of
                                    None \<Rightarrow> False
                                  | Some r \<Rightarrow> isCompleteRow (storeCurrentData cfg) r));
                row2 = (case after2 of None \<Rightarrow> [] | Some r \<Rightarrow> r);
                evaluated = evaluateRowWithErrors env table row2;
                paramEvaluated = evaluateParameterRowWithErrors env table row2;
                save_data =
                  (if complete \<and> syncData table
                   then [SaveBucketData aid existing_buckets (fst evaluated)] else []);
                data_errors =
                  (if complete \<and> syncData table
                   then map (DataQueryFailed (qualifiedName table)) (snd evaluated) else []);
                new_buckets =
                  (if complete \<and> syncData table
                   then map (\<lambda>e. \<lparr>cb_bucket = e_bucket e, cb_table = e_table e, cb_id = e_id e\<rparr>)
                          (fst evaluated)
                   else []);
                save_params =
                  (if complete \<and> syncParameters table
                   then [SaveParameterData aid existing_lookups (fst paramEvaluated)] else []);
                param_errors =
                  (if complete \<and> syncParameters table
                   then map (ParameterQueryFailed (qualifiedName table)) (snd paramEvaluated)
                   else []);
                new_lookups =
                  (if complete \<and> syncParameters table then map p_lookup (fst paramEvaluated)
                   else []);
                after_key = (cfg_group_id cfg, t_id table, aid);
                upsert =
                  (case afterData of
                     Some d \<Rightarrow> (if truthy aid then [UpsertCurrentData after_key d new_buckets new_lookups]
                               else [])
                   | None \<Rightarrow> []);
                res =
                  (case afterData of
                     Some d \<Rightarrow>
                       (if truthy aid
                        then Some \<lparr>cd_id = after_key, cd_data = d, cd_buckets = new_buckets,
                                   cd_lookups = new_lookups\<rparr>
                        else None)
                   | None \<Rightarrow> None);
                delete_old =
                  (if aid = None \<or> bid \<noteq> aid then [DeleteCurrentData before_key] else [])
            in Inr \<lparr>calls = remove_old @ save_data @ save_params @ upsert @ delete_old,
                    reports = too_big @ data_errors @ param_errors,
                    warnings = warned, marked_unavailable = marked, returned = res\<rparr>)"

text \<open>A call that saves rows the sync rules evaluated, which become \<^verbatim>\<open>PUT\<close> ops.\<close>

fun saves_rows :: "batch_call \<Rightarrow> bool" where
  "saves_rows (SaveBucketData k b ev) = (ev \<noteq> [])"
| "saves_rows (SaveParameterData k l ev) = (ev \<noteq> [])"
| "saves_rows c = False"

text \<open>
  Examples: a table that syncs data, an insert of a two-column row under id
  \<^verbatim>\<open>u1\<close>, sync rules that put every row into one bucket, and a serialiser for
  which the row has a given length.
\<close>

definition users_table :: SourceTable where
  "users_table = \<lparr>t_id = ''t1'', qualifiedName = ''public.users'', syncData = True,
                  syncParameters = False\<rparr>"

definition big_row :: row where
  "big_row = [(''id'', Some ''u1''), (''bio'', Some ''lorem'')]"

definition insert_big :: RecordOperation where
  "insert_big =
     \<lparr>op_record = \<lparr>tag = INSERT, sourceTable = users_table, before = None, after = Some big_row\<rparr>,
      beforeId = Some ''u1'', afterId = Some ''u1''\<rparr>"

definition store_config :: save_config where
  "store_config = \<lparr>cfg_group_id = 1, storeCurrentData = True, skipExistingRows = False,
                   has_markRecordUnavailable = False\<rparr>"

definition env_of_length :: "int \<Rightarrow> save_env" where
  "env_of_length n =
     \<lparr>bson_fails = (\<lambda>r. False),
      bson_length = (\<lambda>r. if r = big_row then n else 40),
      evaluateRowWithErrors =
        (\<lambda>t r. ([\<lparr>e_bucket = ''global[]'', e_table = ''users'', e_id = ''u1'', e_data = r\<rparr>], [])),
      evaluateParameterRowWithErrors = (\<lambda>t r. ([], []))\<rparr>"

text \<open>
  The same during initial replication (\<^verbatim>\<open>skipExistingRows\<close>), an update of the row,
  and the current data of the row as an earlier call stored it.
\<close>

definition initial_config :: save_config where
  "initial_config = store_config\<lparr>skipExistingRows := True\<rparr>"

definition update_big :: RecordOperation where
  "update_big =
     \<lparr>op_record = \<lparr>tag = UPDATE, sourceTable = users_table, before = None, after = Some big_row\<rparr>,
      beforeId = Some ''u1'', afterId = Some ''u1''\<rparr>"

definition stored_doc :: CurrentDataDocument where
  "stored_doc =
     \<lparr>cd_id = (1, ''t1'', Some ''u1''), cd_data = Binary [(''id'', Some ''u1''), (''bio'', Some ''x'')],
      cd_buckets = [\<lparr>cb_bucket = ''global[]'', cb_table = ''users'', cb_id = ''u1''\<rparr>],
      cd_lookups = []\<rparr>"

section \<open>Replication transactions (MongoBucketBatch.withReplicationTransaction)\<close>

text \<open>
  The errors a replication transaction can end with: the \<^verbatim>\<open>ServiceError\<close> of code
  \<^verbatim>\<open>PSYNC_S1402\<close> with its message, an error that carries the label
  \<^verbatim>\<open>TransientTransactionError\<close>, and any other error.
\<close>

datatype tx_error = PSYNC_S1402 string | TransientTransactionError | OtherError string

datatype tx_outcome = Committed | Failed tx_error

text \<open>
  One call of the transaction callback by the driver's \<^verbatim>\<open>session.withTransaction\<close>,
  as the surroundings determine it: what \<^verbatim>\<open>Date.now()\<close> reads when the guard is
  evaluated, how the rest of the callback and the commit end, and whether the
  driver, which has a time limit of its own, calls the callback again after a
  transient error. (Before the error is thrown on, \<^verbatim>\<open>withTransaction\<close> sleeps for
  a random time of up to 50 ms; the sleep does not enter the result.)
\<close>

record attempt =
  at_now :: int
  at_outcome :: tx_outcome
  at_driver_retries :: bool

text \<open>
  The guard at the head of the callback:
  \<^verbatim>\<open>flushTry > 20 && Date.now() > lastTry\<close>, with \<^verbatim>\<open>lastTry = start + 90000\<close>.
\<close>

definition tries_exceeded :: "int \<Rightarrow> nat \<Rightarrow> int \<Rightarrow> bool" where
  "tries_exceeded t0 flushTry now_ms = (flushTry > 20 \<and> now_ms > t0 + 90000)"

text \<open>
  The calls of the callback, one per attempt: \<^verbatim>\<open>flushTry += 1\<close>; the guard, whose
  error is not transient and so ends the transaction; else the outcome of the
  attempt, after which only a transient error that the driver retries leads to
  another call. The result is the number of tries and the outcome; \<^term>\<open>None\<close>
  says that the driver is still retrying after the attempts given.
\<close>

fun run_attempts :: "int \<Rightarrow> nat \<Rightarrow> attempt list \<Rightarrow> (nat \<times> tx_outcome) option" where
  "run_attempts t0 flushTry [] = None"
| "run_attempts t0 flushTry (a # as) =
     (let flushTry' = flushTry + 1 in
      if tries_exceeded t0 flushTry' (at_now a)
      then Some (flushTry', Failed (PSYNC_S1402 ''Max transaction tries exceeded''))
      else case at_outcome a of
             Committed \<Rightarrow> Some (flushTry', Committed)
           | Failed e \<Rightarrow>
               if e = TransientTransactionError \<and> at_driver_retries a
               then run_attempts t0 flushTry' as
               else Some (flushTry', Failed e))"

text \<open>\<^verbatim>\<open>withReplicationTransaction\<close>, started when \<^verbatim>\<open>Date.now()\<close> reads \<^verbatim>\<open>start\<close>.\<close>

definition withReplicationTransaction :: "int \<Rightarrow> attempt list \<Rightarrow> (nat \<times> tx_outcome) option" where
  "withReplicationTransaction start attempts = run_attempts start 0 attempts"

text \<open>An attempt that fails with a transient conflict and is retried by the driver.\<close>

definition conflict_at :: "int \<Rightarrow> attempt" where
  "conflict_at t = \<lparr>at_now = t, at_outcome = Failed TransientTransactionError,
                    at_driver_retries = True\<rparr>"

definition conflicts :: "attempt list \<Rightarrow> bool" where
  "conflicts as = list_all (\<lambda>a. at_outcome a = Failed TransientTransactionError
                                 \<and> at_driver_retries a) as"

text \<open>
  The tries that the guard lets through: try number \<^verbatim>\<open>k\<close>, counted from
  \<^verbatim>\<open>first\<close>, made when the clock reads \<^verbatim>\<open>now\<close>, is within the cap when
  \<^verbatim>\<open>k \<le> 20\<close> or \<^verbatim>\<open>now \<le> start + 90000\<close>.
\<close>

fun within_cap :: "int \<Rightarrow> nat \<Rightarrow> attempt list \<Rightarrow> bool" where
  "within_cap t0 first [] = True"
| "within_cap t0 first (a # as) =
     ((first \<le> 20 \<or> at_now a \<le> t0 + 90000) \<and> within_cap t0 (Suc first) as)"

text \<open>
  Examples, started at time 0: twenty conflicts at two minutes, and 25 conflicts
  within the first second.
\<close>

definition slow_conflicts :: "attempt list" where
  "slow_conflicts = replicate 20 (conflict_at 120000)"

definition fast_conflicts :: "attempt list" where
  "fast_conflicts = replicate 25 (conflict_at 1000)"

section \<open>The demultiplexer (Demultiplexer)\<close>

text \<open>
  A \<^verbatim>\<open>Demultiplexer\<close> holds three fields that are set and cleared together:
  \<^verbatim>\<open>subscribers\<close>, \<^verbatim>\<open>abortController\<close> and \<^verbatim>\<open>currentSource\<close>. Each \<^verbatim>\<open>start\<close>
  creates a new \<^verbatim>\<open>Map\<close> of listeners, a new \<^verbatim>\<open>AbortController\<close> and a new source,
  and hands the map and the controller to a \<^verbatim>\<open>loop\<close> that keeps them after the
  fields are cleared; the code compares the maps by identity
  (\<^verbatim>\<open>this.subscribers === sinks\<close>). The objects are therefore kept in a store and
  the fields hold their addresses: the \<^verbatim>\<open>n\<close>-th \<^verbatim>\<open>start\<close> creates the map, the
  controller and the source of address \<^verbatim>\<open>n\<close>. A listener map sends a key to the
  set of its sinks; sinks are addresses too.

  Modelled from the spec: \<^verbatim>\<open>LastValueSink\<close> is not among the sources. It is a
  mailbox of one slot: the producer's \<^verbatim>\<open>write\<close> overwrites the slot, the consumer
  reads and clears it; \<^verbatim>\<open>end\<close> and \<^verbatim>\<open>error\<close> close it.
\<close>

record 'v demux =
  subscribers :: "nat option"
  abortController :: "nat option"
  currentSource :: "nat option"
  listeners :: "nat \<Rightarrow> (string \<rightharpoonup> nat set)"
  aborted :: "nat set"
  running :: "nat set"
  sources_started :: nat
  upstream :: "nat \<Rightarrow> (string \<times> 'v) list"
  slot :: "nat \<Rightarrow> 'v option"
  ended :: "nat set"
  errored :: "nat set"
  sink_of :: "nat \<rightharpoonup> nat \<times> string"
  first_sent :: "nat set"
  reads :: "nat \<Rightarrow> 'v list"
  finished :: "nat set"

text \<open>
  The fields beyond the three of the class: the store of listener maps; the
  controllers on which \<^verbatim>\<open>abort()\<close> was called; the sources whose loop has not
  ended; the number of sources started; the values each source has produced; the
  slot of each sink and the sinks that were ended or given an error; and, for
  each call of \<^verbatim>\<open>subscribe\<close>, identified by its sink, the source and key it holds,
  whether its first value was yielded, the values it yielded from its sink, and
  whether it has run its \<^verbatim>\<open>finally\<close> block.
\<close>

definition initial_demux :: "'v demux" where
  "initial_demux =
     \<lparr>subscribers = None, abortController = None, currentSource = None,
      listeners = (\<lambda>m. Map.empty), aborted = {}, running = {}, sources_started = 0,
      upstream = (\<lambda>g. []), slot = (\<lambda>s. None), ended = {}, errored = {},
      sink_of = Map.empty, first_sent = {}, reads = (\<lambda>s. []), finished = {}\<rparr>"

text \<open>
  \<^verbatim>\<open>start(filter, sink)\<close>: a new controller, a new map holding the sink under its
  key, a new source, and the loop on them; the source is returned.
\<close>

definition start :: "'v demux \<Rightarrow> string \<Rightarrow> nat \<Rightarrow> 'v demux \<times> nat" where
  "start st key sink =
     (let n = sources_started st in
      (st\<lparr>abortController := Some n,
          subscribers := Some n,
          listeners := (listeners st)(n := [key \<mapsto> {sink}]),
          currentSource := Some n,
          running := insert n (running st),
          sources_started := Suc n\<rparr>, n))"

text \<open>
  \<^verbatim>\<open>addSink(key, sink)\<close>: without a current source, \<^verbatim>\<open>start\<close>; else the sink joins
  the set of its key in \<^verbatim>\<open>this.subscribers!\<close>, and the current source is returned.
  \<^term>\<open>None\<close> is the \<^verbatim>\<open>TypeError\<close> of reading \<^verbatim>\<open>get\<close> of \<^verbatim>\<open>undefined\<close>.
\<close>

definition addSink :: "'v demux \<Rightarrow> string \<Rightarrow> nat \<Rightarrow> ('v demux \<times> nat) option" where
  "addSink st key sink =
     (case currentSource st of
        None \<Rightarrow> Some (start st key sink)
      | Some src \<Rightarrow>
          (case subscribers st of
             None \<Rightarrow> None
           | Some m \<Rightarrow>
               (case listeners st m key of
                  Some existing \<Rightarrow>
                    Some (st\<lparr>listeners :=
                              (listeners st)(m := (listeners st m)(key \<mapsto> insert sink existing))\<rparr>,
                          src)
                | None \<Rightarrow>
                    Some (st\<lparr>listeners :=
                              (listeners st)(m := (listeners st m)(key \<mapsto> {sink}))\<rparr>,
                          src))))"

text \<open>
  \<^verbatim>\<open>removeSink(key, sink)\<close>: the sink leaves the set of its key, an empty set leaves
  the map, and with an empty map the controller is aborted and the three fields
  are cleared.
\<close>

definition removeSink :: "'v demux \<Rightarrow> string \<Rightarrow> nat \<Rightarrow> 'v demux" where
  "removeSink st key sink =
     (case subscribers st of
        None \<Rightarrow> st
      | Some m \<Rightarrow>
          (case listeners st m key of
             None \<Rightarrow> st
           | Some existing \<Rightarrow>
               let existing' = existing - {sink};
                   map' = (if existing' = {} then (listeners st m)(key := None)
                           else (listeners st m)(key \<mapsto> existing'));
                   st1 = st\<lparr>listeners := (listeners st)(m := map')\<rparr>
               in if dom map' = {}
                  then st1\<lparr>aborted := (case abortController st of
                                          None \<Rightarrow> aborted st
                                        | Some c \<Rightarrow> insert c (aborted st)),
                           subscribers := None,
                           abortController := None,
                           currentSource := None\<rparr>
                  else st1))"

text \<open>All sinks of a listener map.\<close>

definition sinks_in :: "(string \<rightharpoonup> nat set) \<Rightarrow> nat set" where
  "sinks_in m = \<Union> (ran m)"

text \<open>
  The \<^verbatim>\<open>finally\<close> block of \<^verbatim>\<open>loop\<close>: the fields are cleared when
  \<^verbatim>\<open>this.subscribers === sinks\<close>; the loop has ended.
\<close>

definition loop_finally :: "'v demux \<Rightarrow> nat \<Rightarrow> 'v demux" where
  "loop_finally st n =
     (let st1 = st\<lparr>running := running st - {n}\<rparr> in
      if subscribers st = Some n
      then st1\<lparr>subscribers := None, abortController := None, currentSource := None\<rparr>
      else st1)"

text \<open>
  The \<^verbatim>\<open>catch\<close> block, entered from the loop's own \<^verbatim>\<open>AbortError\<close> or an error of
  the source: the controller is aborted and every sink of the map gets the error.
\<close>

definition loop_catch :: "'v demux \<Rightarrow> nat \<Rightarrow> 'v demux" where
  "loop_catch st n =
     loop_finally
       (st\<lparr>aborted := insert n (aborted st),
           errored := errored st \<union> sinks_in (listeners st n)\<rparr>) n"

text \<open>The end of the source's stream: every sink of the map is ended.\<close>

definition loop_end :: "'v demux \<Rightarrow> nat \<Rightarrow> 'v demux" where
  "loop_end st n =
     loop_finally (st\<lparr>ended := ended st \<union> sinks_in (listeners st n)\<rparr>) n"

text \<open>
  One round of the \<^verbatim>\<open>for await\<close> of the loop on map and controller \<^verbatim>\<open>n\<close>, for a
  document \<^verbatim>\<open>{key, value}\<close>: an \<^verbatim>\<open>AbortError\<close> when the controller is aborted or
  the map is empty; nothing for a key without sinks; else the value is written
  to every sink of the key.
\<close>

definition loop_doc :: "'v demux \<Rightarrow> nat \<Rightarrow> string \<Rightarrow> 'v \<Rightarrow> 'v demux" where
  "loop_doc st n key v =
     (if n \<in> aborted st \<or> dom (listeners st n) = {} then loop_catch st n
      else case listeners st n key of
             None \<Rightarrow> st
           | Some keySinks \<Rightarrow>
               st\<lparr>slot := (\<lambda>s. if s \<in> keySinks then Some v else slot st s)\<rparr>)"

text \<open>
  What can happen to a demultiplexer, one step at a time. \<^verbatim>\<open>subscribe(key, signal)\<close>
  creates a sink and calls \<^verbatim>\<open>addSink\<close> (\<open>Subscribe\<close>, with the address of the new
  sink); it yields the first value of its source and key (\<open>FirstValue\<close>); it
  yields what it reads from its sink (\<open>Read\<close>); and, whenever it is left, its
  \<^verbatim>\<open>finally\<close> block calls \<^verbatim>\<open>removeSink\<close> (\<open>Unsubscribe\<close>). A source produces a
  document (\<open>Doc\<close>), ends (\<open>End\<close>) or fails (\<open>Error\<close>). \<open>RemoveSink\<close> is a call
  of \<^verbatim>\<open>removeSink\<close> with any key and sink.
\<close>

datatype 'v event =
    Subscribe string nat
  | FirstValue nat
  | Read nat
  | Unsubscribe nat
  | RemoveSink string nat
  | Doc nat string 'v
  | End nat
  | Error nat

text \<open>
  A step. \<^verbatim>\<open>getFirstValue\<close> is given by the source factory and is a parameter. An
  event that cannot happen in the state leaves it as it is: a second
  \<open>Subscribe\<close> with the same sink address (the sink is new in every call), a
  value yielded by a call that has been left, a document of a source whose loop
  has ended.
\<close>

fun step :: "(nat \<Rightarrow> string \<Rightarrow> 'v) \<Rightarrow> 'v demux \<Rightarrow> 'v event \<Rightarrow> 'v demux" where
  "step getFirstValue st (Subscribe key sink) =
     (if sink \<in> dom (sink_of st) then st
      else case addSink st key sink of
             None \<Rightarrow> st
           | Some (st', src) \<Rightarrow> st'\<lparr>sink_of := (sink_of st')(sink \<mapsto> (src, key))\<rparr>)"
| "step getFirstValue st (FirstValue sink) =
     (if sink \<in> dom (sink_of st) \<and> sink \<notin> first_sent st \<and> sink \<notin> finished st
      then st\<lparr>first_sent := insert sink (first_sent st)\<rparr>
      else st)"
| "step getFirstValue st (Read sink) =
     (if sink \<in> first_sent st \<and> sink \<notin> finished st
      then (case slot st sink of
              None \<Rightarrow> st
            | Some v \<Rightarrow> st\<lparr>reads := (reads st)(sink := reads st sink @ [v]),
                           slot := (slot st)(sink := None)\<rparr>)
      else st)"
| "step getFirstValue st (Unsubscribe sink) =
     (case sink_of st sink of
        None \<Rightarrow> st
      | Some (src, key) \<Rightarrow>
          if sink \<in> finished st then st
          else (removeSink st key sink)\<lparr>finished := insert sink (finished st)\<rparr>)"
| "step getFirstValue st (RemoveSink key sink) = removeSink st key sink"
| "step getFirstValue st (Doc n key v) =
     (if n \<in> running st
      then (loop_doc st n key v)\<lparr>upstream := (upstream st)(n := upstream st n @ [(key, v)])\<rparr>
      else st)"
| "step getFirstValue st (End n) = (if n \<in> running st then loop_end st n else st)"
| "step getFirstValue st (Error n) = (if n \<in> running st then loop_catch st n else st)"

definition run :: "(nat \<Rightarrow> string \<Rightarrow> 'v) \<Rightarrow> 'v event list \<Rightarrow> 'v demux" where
  "run getFirstValue es = foldl (step getFirstValue) initial_demux es"

text \<open>What a call of \<^verbatim>\<open>subscribe\<close> has yielded: its first value, then what it read.\<close>

definition received :: "(nat \<Rightarrow> string \<Rightarrow> 'v) \<Rightarrow> 'v demux \<Rightarrow> nat \<Rightarrow> 'v list" where
  "received getFirstValue st sink =
     (case sink_of st sink of
        None \<Rightarrow> []
      | Some (src, key) \<Rightarrow>
          if sink \<in> first_sent st then getFirstValue src key # reads st sink else [])"

text \<open>The values a source has produced under a key, in order.\<close>

definition published :: "'v demux \<Rightarrow> nat \<Rightarrow> string \<Rightarrow> 'v list" where
  "published st n key = map snd (filter (\<lambda>d. fst d = key) (upstream st n))"

text \<open>
  The sinks registered with the demultiplexer, and the upstream sources that
  are active: started, not ended and not aborted.
\<close>

definition subscribed :: "'v demux \<Rightarrow> nat set" where
  "subscribed st = (case subscribers st of None \<Rightarrow> {} | Some m \<Rightarrow> sinks_in (listeners st m))"

definition active :: "'v demux \<Rightarrow> nat set" where
  "active st = running st - aborted st"

text \<open>
  Examples: the first value of a key is the key itself; two subscribers of key
  \<^verbatim>\<open>u1\<close> and one of \<^verbatim>\<open>u2\<close>, documents for both keys, and the subscribers leaving.
\<close>

definition first_of :: "nat \<Rightarrow> string \<Rightarrow> string" where
  "first_of n key = key"

definition demux_events :: "string event list" where
  "demux_events =
     [Subscribe ''u1'' 0, Subscribe ''u2'' 1, Doc 0 ''u1'' ''a'', FirstValue 0,
      Doc 0 ''u2'' ''x'', Doc 0 ''u1'' ''b'', Read 0, Subscribe ''u1'' 2,
      Doc 0 ''u1'' ''c'', Read 0, FirstValue 2, Read 2, FirstValue 1, Read 1]"

text \<open>
  What holds in every state a demultiplexer reaches, property by property. The
  three fields agree. The current source is running and not aborted, and its map
  is not empty. No map holds an empty set. A source that is running and not
  aborted is the current one. Nothing has happened to sources not started yet.
\<close>

definition fields_agree :: "'v demux \<Rightarrow> bool" where
  "fields_agree st \<longleftrightarrow>
     subscribers st = currentSource st \<and> abortController st = currentSource st"

definition current_alive :: "'v demux \<Rightarrow> bool" where
  "current_alive st \<longleftrightarrow>
     (\<forall>g. currentSource st = Some g \<longrightarrow>
        g \<in> running st \<and> g \<notin> aborted st \<and> dom (listeners st g) \<noteq> {})"

definition no_empty_set :: "'v demux \<Rightarrow> bool" where
  "no_empty_set st \<longleftrightarrow> (\<forall>g k. listeners st g k \<noteq> Some {})"

definition only_current_active :: "'v demux \<Rightarrow> bool" where
  "only_current_active st \<longleftrightarrow>
     (\<forall>g. g \<in> running st \<and> g \<notin> aborted st \<longrightarrow> currentSource st = Some g)"

definition unstarted_blank :: "'v demux \<Rightarrow> bool" where
  "unstarted_blank st \<longleftrightarrow>
     (\<forall>g. sources_started st \<le> g \<longrightarrow>
        g \<notin> running st \<and> g \<notin> aborted st \<and> listeners st g = Map.empty \<and> upstream st g = [])"

text \<open>
  Every sink of a map was registered by a \<^verbatim>\<open>subscribe\<close> call for the source and
  key of its place. A sink that no call owns is empty. What a call has read from
  its sink, followed by what waits in the slot, is a subsequence of what its
  source has published under its key.
\<close>

definition registered :: "'v demux \<Rightarrow> bool" where
  "registered st \<longleftrightarrow>
     (\<forall>g k S s. listeners st g k = Some S \<and> s \<in> S \<longrightarrow> sink_of st s = Some (g, k))"

definition unowned_empty :: "'v demux \<Rightarrow> bool" where
  "unowned_empty st \<longleftrightarrow>
     (\<forall>s. sink_of st s = None \<longrightarrow> slot st s = None \<and> reads st s = [] \<and> s \<notin> first_sent st)"

definition slot_list :: "'v demux \<Rightarrow> nat \<Rightarrow> 'v list" where
  "slot_list st s = (case slot st s of None \<Rightarrow> [] | Some v \<Rightarrow> [v])"

definition reads_published :: "'v demux \<Rightarrow> bool" where
  "reads_published st \<longleftrightarrow>
     (\<forall>s g k. sink_of st s = Some (g, k) \<longrightarrow>
        g < sources_started st \<and> subseq (reads st s @ slot_list st s) (published st g k))"

definition demux_inv :: "'v demux \<Rightarrow> bool" where
  "demux_inv st \<longleftrightarrow>
     fields_agree st \<and> current_alive st \<and> no_empty_set st \<and> only_current_active st
   \<and> unstarted_blank st \<and> registered st \<and> unowned_empty st \<and> reads_published st"

text \<open>
  The calls of \<^verbatim>\<open>subscribe\<close> that are open: started, and not yet through their
  \<^verbatim>\<open>finally\<close> block. An event is calm when it is a step of a \<^verbatim>\<open>subscribe\<close> call or a
  document of a source: the source neither ends nor fails, and \<^verbatim>\<open>removeSink\<close> is
  called by the \<^verbatim>\<open>finally\<close> blocks only.
\<close>

definition open_call :: "'v demux \<Rightarrow> nat \<Rightarrow> bool" where
  "open_call st s \<longleftrightarrow> sink_of st s \<noteq> None \<and> s \<notin> finished st"

definition calm :: "'v event \<Rightarrow> bool" where
  "calm e = (case e of End n \<Rightarrow> False | Error n \<Rightarrow> False | RemoveSink k s \<Rightarrow> False | _ \<Rightarrow> True)"

text \<open>
  What holds in addition while all events are calm: an open call is listed in
  the current map under its key, a listed sink belongs to an open call, and a
  call that is through was started.
\<close>

definition open_listed :: "'v demux \<Rightarrow> bool" where
  "open_listed st \<longleftrightarrow>
     (\<forall>s g k. sink_of st s = Some (g, k) \<and> s \<notin> finished st \<longrightarrow>
        subscribers st = Some g \<and> (\<exists>S. listeners st g k = Some S \<and> s \<in> S))"

definition listed_open :: "'v demux \<Rightarrow> bool" where
  "listed_open st \<longleftrightarrow>
     (\<forall>g k S s. listeners st g k = Some S \<and> s \<in> S \<longrightarrow> s \<notin> finished st)"

definition finished_owned :: "'v demux \<Rightarrow> bool" where
  "finished_owned st \<longleftrightarrow> (\<forall>s. s \<in> finished st \<longrightarrow> sink_of st s \<noteq> None)"

definition calls_listed :: "'v demux \<Rightarrow> bool" where
  "calls_listed st \<longleftrightarrow> open_listed st \<and> listed_open st \<and> finished_owned st"

section \<open>Checksum additivity\<close>

text \<open>A batch of one request joins to the ops of its bucket in the range.\<close>

lemma joined_rows_single: "joined_rows gid db [(b, a, c)] = ops_in gid db b a c"
  by (simp add: joined_rows_def ops_in_def)

lemma remdups_map_const:
  "(\<forall>x\<in>set xs. f x = k) \<Longrightarrow> remdups (map f xs) = (if xs = [] then [] else [k])"
  by (induction xs) (auto simp: image_iff)

lemma ops_in_bucket: "r \<in> set (ops_in gid db b a c) \<Longrightarrow> bucket_name r = b"
  by (simp add: ops_in_def)

lemma filter_ops_in_bucket:
  "filter (\<lambda>r. bucket_name r = b) (ops_in gid db b a c) = ops_in gid db b a c"
  by (simp add: ops_in_def conj_commute cong: conj_cong)

lemma foldr_max_flag:
  "foldr max (map (\<lambda>b. if P b then 1 else 0) g) (0::int) = (if list_ex P g then 1 else 0)"
  by (induction g) auto

lemma js_bitand_mask:
  "js_bitand (t AND 0xffffffff) 0xffffffff = sint (word_of_int t :: 32 word)"
proof -
  have m: "(0xffffffff :: int) = mask 32" by (simp add: mask_eq_exp_minus_1)
  have "(word_of_int (t AND mask 32) :: 32 word) = word_of_int t"
    by (simp add: word_of_int_eq_iff flip: take_bit_eq_mask)
  moreover have "(word_of_int (mask 32) :: 32 word) = - 1"
    by (simp add: mask_eq_exp_minus_1)
  ultimately show ?thesis by (simp add: js_bitand_def m)
qed

lemma add32_sint: "add32 (sint (v :: 32 word)) (sint w) = sint (v + w)"
  by (simp add: add32_def)

lemma range_checksum_eq:
  "range_checksum gid db b a c =
     (if ops_in gid db b a c = [] then None
      else Some \<lparr>pc_bucket = b,
                 partialCount = int (length (ops_in gid db b a c)),
                 partialChecksum = sint (word_of_int (sum_list (map checksum (ops_in gid db b a c))) :: 32 word),
                 isFullChecksum = has_clear_in gid db b a c\<rparr>)"
proof -
  have rd: "remdups (map bucket_name (ops_in gid db b a c)) =
        (if ops_in gid db b a c = [] then [] else [b])"
    by (rule remdups_map_const) (simp add: ops_in_bucket)
  show ?thesis
    by (simp add: range_checksum_def getChecksumsInternal_def rangedBatch_def
        checksums_query_def joined_rows_single rd filter_ops_in_bucket
        foldr_max_flag js_bitand_mask has_clear_in_def Let_def)
qed


lemma ops_in_split_sum:
  assumes "a \<le> b" "b \<le> c"
  shows "sum_list (map f (ops_in gid db k a c)) =
         sum_list (map f (ops_in gid db k a b)) + (sum_list (map f (ops_in gid db k b c)) :: int)"
  using assms unfolding ops_in_def by (induction db) auto

lemma ops_in_split_length:
  assumes "a \<le> b" "b \<le> c"
  shows "length (ops_in gid db k a c) = length (ops_in gid db k a b) + length (ops_in gid db k b c)"
  using assms unfolding ops_in_def by (induction db) auto

lemma ops_in_split_empty:
  assumes "a \<le> b" "b \<le> c"
  shows "ops_in gid db k a c = [] \<longleftrightarrow> ops_in gid db k a b = [] \<and> ops_in gid db k b c = []"
  using ops_in_split_length [OF assms, of gid db k] by (metis add_is_0 length_0_conv)

lemma count_of_range: "count_of (range_checksum gid db k a c) = int (length (ops_in gid db k a c))"
  by (simp add: count_of_def range_checksum_eq)

lemma checksum_of_range:
  "checksum_of (range_checksum gid db k a c) =
     sint (word_of_int (sum_list (map checksum (ops_in gid db k a c))) :: 32 word)"
  by (simp add: checksum_of_def range_checksum_eq)

lemma range_checksum_None: "range_checksum gid db k a c = None \<longleftrightarrow> ops_in gid db k a c = []"
  by (simp add: range_checksum_eq)

lemma clear_absorbs_ops_in:
  assumes abs: "clear_absorbs gid db k" and cl: "has_clear_in gid db k a c" and le: "a' \<le> a"
  shows "ops_in gid db k a' c = ops_in gid db k a c"
proof -
  from cl obtain r where r: "r \<in> set db" "group_id r = gid" "bucket_name r = k" "op r = CLEAR"
      "a < op_id r"
    by (auto simp: has_clear_in_def ops_in_def list_ex_iff)
  have low: "op_id r \<le> op_id r'" if "r' \<in> set db" "group_id r' = gid" "bucket_name r' = k" for r'
    using abs r that by (auto simp: clear_absorbs_def list_all_iff)
  show ?thesis
    unfolding ops_in_def
  proof (rule filter_cong [OF refl])
    fix x assume x: "x \<in> set db"
    show "(bucket_name x = k \<and> a' < op_id x \<and> op_id x \<le> c \<and> group_id x = gid) =
          (bucket_name x = k \<and> a < op_id x \<and> op_id x \<le> c \<and> group_id x = gid)"
      using low [OF x] r(5) le by auto
  qed
qed

lemma range_checksum_start_default:
  "getChecksumsInternal gid db [\<lparr>fp_bucket = k, fp_start = None, fp_end = c\<rparr>] k
     = range_checksum gid db k 0 c"
  by (simp add: range_checksum_def getChecksumsInternal_def rangedBatch_def)

text \<open>
  C1. For op-id bounds \<^verbatim>\<open>a < b < c\<close> of one bucket, the partial checksum that
  \<^verbatim>\<open>getChecksumsInternal\<close> computes over \<^verbatim>\<open>(a, c]\<close> is the 32-bit two's-complement
  sum of those over \<^verbatim>\<open>(a, b]\<close> and \<^verbatim>\<open>(b, c]\<close>, and the counts add (a bucket
  without an op in a range has no entry, which counts as no ops; the entry over
  \<^verbatim>\<open>(a, c]\<close> is absent exactly when both parts are). This holds with or without a
  \<^verbatim>\<open>CLEAR\<close> in the range. A result is flagged \<^verbatim>\<open>isFullChecksum\<close> exactly when
  an op of its range is a \<^verbatim>\<open>CLEAR\<close>; and where the \<^verbatim>\<open>CLEAR\<close> has absorbed the
  earlier ops of the bucket, as the data model has it, the result over \<^verbatim>\<open>(a, c]\<close>
  is the result over \<^verbatim>\<open>(0, c]\<close>, which is also what a request without a start
  gives.
\<close>

theorem checksum_additivity:
  assumes "a < b" and "b < c"
  shows "count_of (range_checksum gid db k a c)
           = count_of (range_checksum gid db k a b) + count_of (range_checksum gid db k b c)
       \<and> checksum_of (range_checksum gid db k a c)
           = add32 (checksum_of (range_checksum gid db k a b))
                   (checksum_of (range_checksum gid db k b c))
       \<and> (range_checksum gid db k a c = None \<longleftrightarrow>
            range_checksum gid db k a b = None \<and> range_checksum gid db k b c = None)
       \<and> (\<forall>p. range_checksum gid db k a c = Some p \<longrightarrow>
              (isFullChecksum p \<longleftrightarrow> has_clear_in gid db k a c))
       \<and> (has_clear_in gid db k a c \<longrightarrow>
              (\<exists>p. range_checksum gid db k a c = Some p \<and> isFullChecksum p))
       \<and> (has_clear_in gid db k a c \<and> clear_absorbs gid db k \<and> 0 \<le> a \<longrightarrow>
              range_checksum gid db k a c = range_checksum gid db k 0 c
            \<and> range_checksum gid db k a c
                = getChecksumsInternal gid db [\<lparr>fp_bucket = k, fp_start = None, fp_end = c\<rparr>] k)"
proof -
  have ab: "a \<le> b" and bc: "b \<le> c" using assms by simp_all
  have 1: "count_of (range_checksum gid db k a c)
           = count_of (range_checksum gid db k a b) + count_of (range_checksum gid db k b c)"
    by (simp add: count_of_range ops_in_split_length [OF ab bc])
  have 2: "checksum_of (range_checksum gid db k a c)
           = add32 (checksum_of (range_checksum gid db k a b))
                   (checksum_of (range_checksum gid db k b c))"
    by (simp add: checksum_of_range add32_sint ops_in_split_sum [OF ab bc])
  have 3: "range_checksum gid db k a c = None \<longleftrightarrow>
            range_checksum gid db k a b = None \<and> range_checksum gid db k b c = None"
    by (simp add: range_checksum_None ops_in_split_empty [OF ab bc])
  have 4: "\<forall>p. range_checksum gid db k a c = Some p \<longrightarrow>
              (isFullChecksum p \<longleftrightarrow> has_clear_in gid db k a c)"
    by (auto simp: range_checksum_eq split: if_splits)
  have 5: "has_clear_in gid db k a c \<longrightarrow>
              (\<exists>p. range_checksum gid db k a c = Some p \<and> isFullChecksum p)"
    by (auto simp: range_checksum_eq has_clear_in_def)
  have 6: "range_checksum gid db k a c = range_checksum gid db k 0 c"
    if "has_clear_in gid db k a c" "clear_absorbs gid db k" "0 \<le> a"
  proof -
    have o: "ops_in gid db k 0 c = ops_in gid db k a c"
      using that by (intro clear_absorbs_ops_in)
    show ?thesis
      by (simp add: range_checksum_eq has_clear_in_def o)
  qed
  from 1 2 3 4 5 6 show ?thesis
    by (simp add: range_checksum_start_default)
qed


text \<open>
  On the example table, over \<^verbatim>\<open>(1, 8]\<close> split at 3: the two parts hold two ops
  each, their checksums wrap to 0 when added, and the \<^verbatim>\<open>CLEAR\<close> at 2 makes the
  whole a full checksum, equal to the one from 0.
\<close>

theorem checksum_additivity_witness:
  "(1::int) < 3 \<and> (3::int) < 8 \<and> (0::int) \<le> 1
   \<and> has_clear_in 1 example_db ''b'' 1 8 \<and> clear_absorbs 1 example_db ''b''
   \<and> range_checksum 1 example_db ''b'' 1 3
       = Some \<lparr>pc_bucket = ''b'', partialCount = 2, partialChecksum = - 2147483642,
               isFullChecksum = True\<rparr>
   \<and> range_checksum 1 example_db ''b'' 3 8
       = Some \<lparr>pc_bucket = ''b'', partialCount = 2, partialChecksum = 2147483642,
               isFullChecksum = False\<rparr>
   \<and> count_of (range_checksum 1 example_db ''b'' 1 8) = 4
   \<and> checksum_of (range_checksum 1 example_db ''b'' 1 8) = 0
   \<and> (\<exists>p. range_checksum 1 example_db ''b'' 1 8 = Some p \<and> isFullChecksum p)
   \<and> range_checksum 1 example_db ''b'' 1 8 = range_checksum 1 example_db ''b'' 0 8"
proof -
  have h1: "(1::int) < 3" and h2: "(3::int) < 8" and h3: "(0::int) \<le> 1" by simp_all
  have cl: "has_clear_in 1 example_db ''b'' 1 8" by code_simp
  have ab: "clear_absorbs 1 example_db ''b''" by code_simp
  have r1: "range_checksum 1 example_db ''b'' 1 3
       = Some \<lparr>pc_bucket = ''b'', partialCount = 2, partialChecksum = - 2147483642,
               isFullChecksum = True\<rparr>" by code_simp
  have r2: "range_checksum 1 example_db ''b'' 3 8
       = Some \<lparr>pc_bucket = ''b'', partialCount = 2, partialChecksum = 2147483642,
               isFullChecksum = False\<rparr>" by code_simp
  have s: "add32 (- 2147483642) 2147483642 = 0" by (simp add: add32_def)
  note t = checksum_additivity [OF h1 h2, of 1 example_db "''b''"]
  from t r1 r2 s have "count_of (range_checksum 1 example_db ''b'' 1 8) = 4"
    and "checksum_of (range_checksum 1 example_db ''b'' 1 8) = 0"
    by (simp_all add: count_of_def checksum_of_def)
  moreover from t cl have "\<exists>p. range_checksum 1 example_db ''b'' 1 8 = Some p \<and> isFullChecksum p"
    by blast
  moreover from t cl ab h3
  have "range_checksum 1 example_db ''b'' 1 8 = range_checksum 1 example_db ''b'' 0 8"
    by blast
  ultimately show ?thesis using cl ab r1 r2 by simp
qed

section \<open>The checkpoint gate of commit and keepalive\<close>

lemma updateOne_keepalive_checkpoint_state:
  "map checkpoint_state (updateOne i (\<lambda>d. d\<lparr>d_last_keepalive_ts := v\<rparr>) ds) = map checkpoint_state ds"
  by (induction ds) (simp_all add: checkpoint_state_def)

lemma flush_idle: "\<not> pending st \<Longrightarrow> flush st db env = Inr (st, db)"
  by (simp add: flush_def)

lemma flush_frame:
  assumes "flush st db env = Inr (st1, db1)"
  shows "last_checkpoint_lsn st1 = last_checkpoint_lsn st"
    and "no_checkpoint_before_lsn st1 = no_checkpoint_before_lsn st"
    and "\<not> pending st1"
    and "map checkpoint_state (sync_rules db1) = map checkpoint_state (sync_rules db)"
    and "notifications db1 = notifications db"
    and "write_checkpoints db1 = write_checkpoints db"
    and "b_group_id st1 = b_group_id st"
    and "custom_checkpoint_writes db1 =
           custom_checkpoint_writes db
           @ (if write_checkpoint_batch st = [] then []
              else [(write_checkpoint_batch st, next_op env)])"
  using assms
  by (auto simp: flush_def pending_def updateOne_keepalive_checkpoint_state
      split: if_splits sum.splits)

lemma find_updateOne:
  assumes "\<And>d. d_id (f d) = d_id d"
  shows "find (\<lambda>d. d_id d = i) (updateOne i f ds) = map_option f (find (\<lambda>d. d_id d = i) ds)"
  using assms by (induction ds) simp_all

lemma find_map_others:
  assumes "\<And>d. d_id (f d) = d_id d" "\<And>d. d_id d = i \<Longrightarrow> f d = d"
  shows "find (\<lambda>d. d_id d = i) (map f ds) = find (\<lambda>d. d_id d = i) ds"
  using assms by (induction ds) simp_all

lemma autoActivate_batch: "fst (autoActivate st db) = st\<lparr>needsActivation := False\<rparr>"
  by (cases st) (simp add: autoActivate_def Let_def)

lemma autoActivate_frame:
  "write_checkpoints (snd (autoActivate st db)) = write_checkpoints db"
  "notifications db \<le> notifications (snd (autoActivate st db))"
  by (simp_all add: autoActivate_def Let_def notifyCheckpoint_def)

lemma autoActivate_rules:
  "rules_of (snd (autoActivate st db)) (b_group_id st) =
     map_option
       (\<lambda>d. if needsActivation st \<and> d_state d = PROCESSING then d\<lparr>d_state := ACTIVE\<rparr> else d)
       (rules_of db (b_group_id st))"
proof (cases "needsActivation st
    \<and> (case find (\<lambda>d. d_id d = b_group_id st) (sync_rules db) of
          None \<Rightarrow> False | Some d \<Rightarrow> d_state d = PROCESSING)")
  case False
  then show ?thesis
    by (cases "rules_of db (b_group_id st)")
      (auto simp: autoActivate_def Let_def rules_of_def)
next
  case True
  then obtain d where d: "find (\<lambda>d. d_id d = b_group_id st) (sync_rules db) = Some d"
    and p: "d_state d = PROCESSING" and n: "needsActivation st"
    by (auto split: option.splits)
  have "find (\<lambda>d. d_id d = b_group_id st)
          (map (\<lambda>d. if d_id d \<noteq> b_group_id st \<and> (d_state d = ACTIVE \<or> d_state d = ERRORED)
                     then d\<lparr>d_state := STOP\<rparr> else d)
             (updateOne (b_group_id st) (\<lambda>d. d\<lparr>d_state := ACTIVE\<rparr>) (sync_rules db)))
        = Some (d\<lparr>d_state := ACTIVE\<rparr>)"
    by (subst find_map_others) (simp_all add: find_updateOne d)
  with d p n show ?thesis
    by (simp add: autoActivate_def Let_def rules_of_def notifyCheckpoint_def)
qed

text \<open>
  C2, as the claim states it, fails at \<^verbatim>\<open>lsn = last_checkpoint_lsn\<close>: the gate of
  \<^verbatim>\<open>commit\<close> is \<^verbatim>\<open>lsn < this.last_checkpoint_lsn\<close>. For a batch whose last
  checkpoint LSN is \<^verbatim>\<open>0000000A\<close> and whose persisted op is 41, \<^verbatim>\<open>commit\<close> at that
  same LSN returns true, writes checkpoint 41 over checkpoint 40, and notifies.
\<close>

theorem commit_at_checkpoint_lsn_counterexample:
  "last_checkpoint_lsn commit_batch = Some ''0000000A''
   \<and> ''0000000A'' \<le> ''0000000A''
   \<and> commit commit_batch commit_db ''0000000A'' True commit_env
       = Inr (True, commit_batch\<lparr>persisted_op := None\<rparr>,
              commit_db\<lparr>sync_rules :=
                          [rules_doc\<lparr>d_last_checkpoint := Some 41,
                                     d_last_checkpoint_ts := Some 200,
                                     d_last_keepalive_ts := Some 200\<rparr>],
                        notifications := 1\<rparr>)"
  by code_simp

text \<open>
  C2, amended. For a batch whose \<^verbatim>\<open>last_checkpoint_lsn\<close> is \<^verbatim>\<open>l\<close>, and a flush
  that does not fail.

  \<^verbatim>\<open>commit(lsn)\<close> with \<^verbatim>\<open>lsn < l\<close> flushes what is pending and then skips; it
  returns false with the flushed state, in which \<^verbatim>\<open>last_checkpoint_lsn\<close>, the
  checkpoint every \<^verbatim>\<open>sync_rules\<close> document stores, the collection
  \<^verbatim>\<open>write_checkpoints\<close> and the number of notifications are as before the call,
  and the custom write checkpoints that were pending are written; with nothing
  pending nothing changes at all, and calling it again changes nothing.
  \<^verbatim>\<open>keepalive(lsn)\<close> with \<^verbatim>\<open>lsn \<le> l\<close> is a no-op that returns false.

  \<^verbatim>\<open>commit(lsn)\<close> with \<^verbatim>\<open>l \<le> lsn\<close>, so \<^verbatim>\<open>commit(l)\<close> too, is not skipped there:
  before \<^verbatim>\<open>no_checkpoint_before_lsn\<close> it stores the persisted op in \<^verbatim>\<open>keepalive_op\<close>,
  notifies and returns false; else, when no empty checkpoints are wanted and no
  op is persisted, it activates the rules and returns true; else it writes the
  checkpoint and returns true: \<^verbatim>\<open>last_checkpoint_lsn\<close> of the batch and of the
  document of the group is \<^verbatim>\<open>lsn\<close>, the document gets the date and the persisted
  op, if there is one, as \<^verbatim>\<open>last_checkpoint\<close>, the write checkpoints up to
  \<^verbatim>\<open>lsn\<close> are marked, and the checkpoint is notified.
\<close>

theorem commit_behind_checkpoint_skips:
  "(last_checkpoint_lsn st = Some l \<and> lsn < l \<and> flush st db env = Inr (st1, db1) \<longrightarrow>
      commit st db lsn createEmptyCheckpoints env = Inr (False, st1, db1)
    \<and> commit st1 db1 lsn createEmptyCheckpoints env' = Inr (False, st1, db1)
    \<and> last_checkpoint_lsn st1 = Some l
    \<and> map checkpoint_state (sync_rules db1) = map checkpoint_state (sync_rules db)
    \<and> notifications db1 = notifications db
    \<and> write_checkpoints db1 = write_checkpoints db
    \<and> custom_checkpoint_writes db1 =
        custom_checkpoint_writes db
        @ (if write_checkpoint_batch st = [] then []
           else [(write_checkpoint_batch st, next_op env)])
    \<and> (\<not> pending st \<longrightarrow> st1 = st \<and> db1 = db))
   \<and> (last_checkpoint_lsn st = Some l \<and> lsn \<le> l \<longrightarrow>
        keepalive st db lsn createEmptyCheckpoints env = Inr (False, st, db))
   \<and> (last_checkpoint_lsn st = Some l \<and> l \<le> lsn \<and> flush st db env = Inr (st1, db1) \<longrightarrow>
        (lsn < no_checkpoint_before_lsn st \<longrightarrow>
           commit st db lsn createEmptyCheckpoints env =
             Inr (False, st1,
                  notifyCheckpoint
                    (db1\<lparr>sync_rules := updateOne (b_group_id st)
                           (\<lambda>d. d\<lparr>d_keepalive_op := persisted_op st1\<rparr>) (sync_rules db1)\<rparr>)))
      \<and> (no_checkpoint_before_lsn st \<le> lsn \<and> \<not> createEmptyCheckpoints
           \<and> persisted_op st1 = None \<longrightarrow>
           commit st db lsn createEmptyCheckpoints env =
             Inr (True, st1\<lparr>needsActivation := False\<rparr>, snd (autoActivate st1 db1)))
      \<and> (no_checkpoint_before_lsn st \<le> lsn
           \<and> (createEmptyCheckpoints \<or> persisted_op st1 \<noteq> None) \<longrightarrow>
           (\<exists>db2. commit st db lsn createEmptyCheckpoints env =
               Inr (True,
                    st1\<lparr>needsActivation := False, persisted_op := None,
                        last_checkpoint_lsn := Some lsn\<rparr>, db2)
             \<and> notifications db1 < notifications db2
             \<and> write_checkpoints db2 = mark_processed lsn (write_checkpoints db1)
             \<and> (\<forall>d. rules_of db1 (b_group_id st) = Some d \<longrightarrow>
                  (\<exists>d2. rules_of db2 (b_group_id st) = Some d2
                     \<and> d_last_checkpoint_lsn d2 = Some lsn
                     \<and> d_last_checkpoint_ts d2 = Some (now env)
                     \<and> d_last_checkpoint d2 =
                         (case persisted_op st1 of None \<Rightarrow> d_last_checkpoint d
                          | Some p \<Rightarrow> Some p)
                     \<and> d_keepalive_op d2 = None \<and> d_snapshot_done d2)))))"
proof -
  have k: "keepalive st db lsn createEmptyCheckpoints env = Inr (False, st, db)"
    if "last_checkpoint_lsn st = Some l" "lsn \<le> l"
    using that by (simp add: keepalive_def)
  have c: "commit st db lsn createEmptyCheckpoints env = Inr (False, st1, db1)
    \<and> commit st1 db1 lsn createEmptyCheckpoints env' = Inr (False, st1, db1)
    \<and> last_checkpoint_lsn st1 = Some l
    \<and> map checkpoint_state (sync_rules db1) = map checkpoint_state (sync_rules db)
    \<and> notifications db1 = notifications db
    \<and> write_checkpoints db1 = write_checkpoints db
    \<and> custom_checkpoint_writes db1 =
        custom_checkpoint_writes db
        @ (if write_checkpoint_batch st = [] then []
           else [(write_checkpoint_batch st, next_op env)])
    \<and> (\<not> pending st \<longrightarrow> st1 = st \<and> db1 = db)"
    if l: "last_checkpoint_lsn st = Some l" and lt: "lsn < l" and f: "flush st db env = Inr (st1, db1)"
  proof -
    note fr = flush_frame [OF f]
    have l1: "last_checkpoint_lsn st1 = Some l" using fr(1) l by simp
    have 1: "commit st db lsn createEmptyCheckpoints env = Inr (False, st1, db1)"
      using f l1 lt by (simp add: commit_def)
    have 2: "commit st1 db1 lsn createEmptyCheckpoints env' = Inr (False, st1, db1)"
      using flush_idle [OF fr(3), of db1 env'] l1 lt by (simp add: commit_def)
    have 3: "\<not> pending st \<longrightarrow> st1 = st \<and> db1 = db"
      using f by (auto simp: flush_def)
    from 1 2 3 l1 fr(4,5,6,8) show ?thesis by simp
  qed
  have p: "(lsn < no_checkpoint_before_lsn st \<longrightarrow>
           commit st db lsn createEmptyCheckpoints env =
             Inr (False, st1,
                  notifyCheckpoint
                    (db1\<lparr>sync_rules := updateOne (b_group_id st)
                           (\<lambda>d. d\<lparr>d_keepalive_op := persisted_op st1\<rparr>) (sync_rules db1)\<rparr>)))
      \<and> (no_checkpoint_before_lsn st \<le> lsn \<and> \<not> createEmptyCheckpoints
           \<and> persisted_op st1 = None \<longrightarrow>
           commit st db lsn createEmptyCheckpoints env =
             Inr (True, st1\<lparr>needsActivation := False\<rparr>, snd (autoActivate st1 db1)))
      \<and> (no_checkpoint_before_lsn st \<le> lsn
           \<and> (createEmptyCheckpoints \<or> persisted_op st1 \<noteq> None) \<longrightarrow>
           (\<exists>db2. commit st db lsn createEmptyCheckpoints env =
               Inr (True,
                    st1\<lparr>needsActivation := False, persisted_op := None,
                        last_checkpoint_lsn := Some lsn\<rparr>, db2)
             \<and> notifications db1 < notifications db2
             \<and> write_checkpoints db2 = mark_processed lsn (write_checkpoints db1)
             \<and> (\<forall>d. rules_of db1 (b_group_id st) = Some d \<longrightarrow>
                  (\<exists>d2. rules_of db2 (b_group_id st) = Some d2
                     \<and> d_last_checkpoint_lsn d2 = Some lsn
                     \<and> d_last_checkpoint_ts d2 = Some (now env)
                     \<and> d_last_checkpoint d2 =
                         (case persisted_op st1 of None \<Rightarrow> d_last_checkpoint d
                          | Some p \<Rightarrow> Some p)
                     \<and> d_keepalive_op d2 = None \<and> d_snapshot_done d2))))"
    if l: "last_checkpoint_lsn st = Some l" and le: "l \<le> lsn" and f: "flush st db env = Inr (st1, db1)"
  proof -
    note fr = flush_frame [OF f]
    have l1: "last_checkpoint_lsn st1 = Some l" using fr(1) l by simp
    have gate: "\<not> lsn < l" using le by simp
    have g: "b_group_id st1 = b_group_id st" and n: "no_checkpoint_before_lsn st1 = no_checkpoint_before_lsn st"
      using fr by simp_all
    have 1: "commit st db lsn createEmptyCheckpoints env =
             Inr (False, st1,
                  notifyCheckpoint
                    (db1\<lparr>sync_rules := updateOne (b_group_id st)
                           (\<lambda>d. d\<lparr>d_keepalive_op := persisted_op st1\<rparr>) (sync_rules db1)\<rparr>))"
      if "lsn < no_checkpoint_before_lsn st"
      using f l1 gate that g n by (simp add: commit_def)
    have 2: "commit st db lsn createEmptyCheckpoints env =
             Inr (True, st1\<lparr>needsActivation := False\<rparr>, snd (autoActivate st1 db1))"
      if "no_checkpoint_before_lsn st \<le> lsn" "\<not> createEmptyCheckpoints" "persisted_op st1 = None"
    proof -
      from that(1) have "\<not> lsn < no_checkpoint_before_lsn st" by simp
      with f l1 gate that(2,3) n show ?thesis
        using autoActivate_batch [of st1 db1]
        by (cases "autoActivate st1 db1") (simp add: commit_def)
    qed
    have 3: "\<exists>db2. commit st db lsn createEmptyCheckpoints env =
               Inr (True,
                    st1\<lparr>needsActivation := False, persisted_op := None,
                        last_checkpoint_lsn := Some lsn\<rparr>, db2)
             \<and> notifications db1 < notifications db2
             \<and> write_checkpoints db2 = mark_processed lsn (write_checkpoints db1)
             \<and> (\<forall>d. rules_of db1 (b_group_id st) = Some d \<longrightarrow>
                  (\<exists>d2. rules_of db2 (b_group_id st) = Some d2
                     \<and> d_last_checkpoint_lsn d2 = Some lsn
                     \<and> d_last_checkpoint_ts d2 = Some (now env)
                     \<and> d_last_checkpoint d2 =
                         (case persisted_op st1 of None \<Rightarrow> d_last_checkpoint d
                          | Some p \<Rightarrow> Some p)
                     \<and> d_keepalive_op d2 = None \<and> d_snapshot_done d2))"
      if nb: "no_checkpoint_before_lsn st \<le> lsn"
        and w: "createEmptyCheckpoints \<or> persisted_op st1 \<noteq> None"
    proof -
      define upd where "upd = (\<lambda>d :: SyncRuleDocument. d\<lparr>d_last_checkpoint_lsn := Some lsn,
                               d_last_checkpoint_ts := Some (now env),
                               d_last_keepalive_ts := Some (now env),
                               d_snapshot_done := True,
                               d_last_fatal_error := None,
                               d_keepalive_op := None,
                               d_last_checkpoint :=
                                 (case persisted_op st1 of
                                    None \<Rightarrow> d_last_checkpoint d
                                  | Some p \<Rightarrow> Some p),
                               d_snapshot_lsn := None\<rparr>)"
      define dbw where "dbw = db1\<lparr>write_checkpoints := mark_processed lsn (write_checkpoints db1),
            sync_rules := updateOne (b_group_id st1) upd (sync_rules db1)\<rparr>"
      define db2 where "db2 = notifyCheckpoint (snd (autoActivate st1 dbw))"
      from nb have nb': "\<not> lsn < no_checkpoint_before_lsn st" by simp
      have e: "commit st db lsn createEmptyCheckpoints env =
               Inr (True,
                    st1\<lparr>needsActivation := False, persisted_op := None,
                        last_checkpoint_lsn := Some lsn\<rparr>, db2)"
        using f l1 gate nb' w n autoActivate_batch [of st1 dbw]
        by (cases "autoActivate st1 dbw")
          (auto simp: commit_def Let_def db2_def dbw_def upd_def)
      have nn: "notifications db1 < notifications db2"
        using autoActivate_frame(2) [of dbw st1]
        by (simp add: db2_def notifyCheckpoint_def dbw_def)
      have wc: "write_checkpoints db2 = mark_processed lsn (write_checkpoints db1)"
        using autoActivate_frame(1) [of st1 dbw]
        by (simp add: db2_def notifyCheckpoint_def dbw_def)
      have r: "rules_of db2 (b_group_id st) =
          map_option
            (\<lambda>d. if needsActivation st1 \<and> d_state d = PROCESSING then d\<lparr>d_state := ACTIVE\<rparr> else d)
            (map_option upd (rules_of db1 (b_group_id st)))"
      proof -
        have "rules_of db2 (b_group_id st1) = rules_of (snd (autoActivate st1 dbw)) (b_group_id st1)"
          by (simp add: db2_def rules_of_def notifyCheckpoint_def)
        also have "\<dots> = map_option
            (\<lambda>d. if needsActivation st1 \<and> d_state d = PROCESSING then d\<lparr>d_state := ACTIVE\<rparr> else d)
            (rules_of dbw (b_group_id st1))"
          by (rule autoActivate_rules)
        also have "rules_of dbw (b_group_id st1) = map_option upd (rules_of db1 (b_group_id st1))"
          by (simp add: rules_of_def dbw_def find_updateOne upd_def)
        finally show ?thesis by (simp add: g)
      qed
      have "\<exists>d2. rules_of db2 (b_group_id st) = Some d2
                     \<and> d_last_checkpoint_lsn d2 = Some lsn
                     \<and> d_last_checkpoint_ts d2 = Some (now env)
                     \<and> d_last_checkpoint d2 =
                         (case persisted_op st1 of None \<Rightarrow> d_last_checkpoint d
                          | Some p \<Rightarrow> Some p)
                     \<and> d_keepalive_op d2 = None \<and> d_snapshot_done d2"
        if "rules_of db1 (b_group_id st) = Some d" for d
        using that by (simp add: r upd_def)
      with e nn wc show ?thesis by blast
    qed
    from 1 2 3 show ?thesis by blast
  qed
  from k c p show ?thesis by blast
qed

text \<open>
  With a pending batch and a pending custom write checkpoint, \<^verbatim>\<open>commit\<close> behind
  the checkpoint LSN leaves only the trace of the flush (the ops 42 and 43,
  persisted op 43, the custom write checkpoint at op 44, a new keepalive date);
  \<^verbatim>\<open>keepalive\<close> at the checkpoint LSN changes nothing; and \<^verbatim>\<open>commit\<close> at the
  checkpoint LSN writes checkpoint 41, or only \<^verbatim>\<open>keepalive_op\<close> when that LSN is
  before \<^verbatim>\<open>no_checkpoint_before_lsn\<close>, or nothing when no op is persisted and no
  empty checkpoints are wanted.
\<close>

theorem commit_behind_checkpoint_skips_witness:
  "last_checkpoint_lsn pending_batch = Some ''0000000A''
   \<and> ''00000009'' < ''0000000A''
   \<and> commit pending_batch commit_db ''00000009'' True commit_env
       = Inr (False, commit_batch\<lparr>persisted_op := Some 43\<rparr>,
              commit_db\<lparr>bucket_ops := [41, 42, 43],
                        custom_checkpoint_writes := [([(''user 1 at 7'', 1)], 44)],
                        sync_rules := [rules_doc\<lparr>d_last_keepalive_ts := Some 200\<rparr>]\<rparr>)
   \<and> keepalive commit_batch commit_db ''0000000A'' True commit_env
       = Inr (False, commit_batch, commit_db)
   \<and> (\<exists>db2 d2. commit commit_batch commit_db ''0000000A'' True commit_env
         = Inr (True, commit_batch\<lparr>persisted_op := None\<rparr>, db2)
        \<and> notifications db2 > 0
        \<and> rules_of db2 1 = Some d2
        \<and> d_last_checkpoint d2 = Some 41 \<and> d_last_checkpoint_ts d2 = Some 200)
   \<and> commit (commit_batch\<lparr>no_checkpoint_before_lsn := ''0000000F''\<rparr>) commit_db ''0000000A''
        True commit_env
       = Inr (False, commit_batch\<lparr>no_checkpoint_before_lsn := ''0000000F''\<rparr>,
              commit_db\<lparr>sync_rules := [rules_doc\<lparr>d_keepalive_op := Some 41\<rparr>],
                        notifications := 1\<rparr>)
   \<and> commit (commit_batch\<lparr>persisted_op := None\<rparr>) commit_db ''0000000A'' False commit_env
       = Inr (True, commit_batch\<lparr>persisted_op := None\<rparr>, commit_db)"
proof -
  let ?st1 = "commit_batch\<lparr>persisted_op := Some 43\<rparr>"
  let ?db1 = "commit_db\<lparr>bucket_ops := [41, 42, 43],
                        custom_checkpoint_writes := [([(''user 1 at 7'', 1)], 44)],
                        sync_rules := [rules_doc\<lparr>d_last_keepalive_ts := Some 200\<rparr>]\<rparr>"
  let ?late = "commit_batch\<lparr>no_checkpoint_before_lsn := ''0000000F''\<rparr>"
  let ?idle = "commit_batch\<lparr>persisted_op := None\<rparr>"
  have l: "last_checkpoint_lsn pending_batch = Some ''0000000A''"
    and l': "last_checkpoint_lsn commit_batch = Some ''0000000A''"
    and l'': "last_checkpoint_lsn ?late = Some ''0000000A''"
    and l''': "last_checkpoint_lsn ?idle = Some ''0000000A''"
    by (simp_all add: commit_batch_def pending_batch_def addCustomWriteCheckpoint_def)
  have lt: "''00000009'' < ''0000000A''" and le: "''0000000A'' \<le> ''0000000A''"
    and before: "''0000000A'' < ''0000000F''" and after: "''00000001'' \<le> ''0000000A''"
    by code_simp+
  have f: "flush pending_batch commit_db commit_env = Inr (?st1, ?db1)"
    by (simp add: flush_def pending_def pending_batch_def addCustomWriteCheckpoint_def
        commit_batch_def commit_db_def commit_env_def rules_doc_def)
  have idle: "flush commit_batch commit_db commit_env = Inr (commit_batch, commit_db)"
    "flush ?late commit_db commit_env = Inr (?late, commit_db)"
    "flush ?idle commit_db commit_env = Inr (?idle, commit_db)"
    by (simp_all add: flush_def pending_def commit_batch_def)
  have q: "no_checkpoint_before_lsn commit_batch = ''00000001''"
    "no_checkpoint_before_lsn ?late = ''0000000F''"
    "no_checkpoint_before_lsn ?idle = ''00000001''"
    "persisted_op commit_batch = Some 41" "persisted_op ?idle = None"
    "b_group_id commit_batch = 1" "b_group_id ?late = 1" "now commit_env = 200"
    "rules_of commit_db 1 = Some rules_doc" "notifications commit_db = 0"
    "d_last_checkpoint rules_doc = Some 40"
    by (simp_all add: commit_batch_def commit_env_def commit_db_def rules_of_def rules_doc_def)
  from commit_behind_checkpoint_skips
    [of pending_batch "''0000000A''" "''00000009''" commit_db commit_env ?st1 ?db1 True]
    l lt f
  have 1: "commit pending_batch commit_db ''00000009'' True commit_env = Inr (False, ?st1, ?db1)"
    by blast
  from commit_behind_checkpoint_skips
    [of commit_batch "''0000000A''" "''0000000A''" commit_db commit_env _ _ True] l' le
  have 2: "keepalive commit_batch commit_db ''0000000A'' True commit_env
       = Inr (False, commit_batch, commit_db)"
    by blast
  from commit_behind_checkpoint_skips
    [of commit_batch "''0000000A''" "''0000000A''" commit_db commit_env commit_batch commit_db True]
    l' le idle(1) after q
  have "\<exists>db2. commit commit_batch commit_db ''0000000A'' True commit_env =
               Inr (True,
                    commit_batch\<lparr>needsActivation := False, persisted_op := None,
                        last_checkpoint_lsn := Some ''0000000A''\<rparr>, db2)
             \<and> notifications commit_db < notifications db2
             \<and> (\<exists>d2. rules_of db2 1 = Some d2
                     \<and> d_last_checkpoint_lsn d2 = Some ''0000000A''
                     \<and> d_last_checkpoint_ts d2 = Some 200
                     \<and> d_last_checkpoint d2 = Some 41)"
    by auto
  moreover have "commit_batch\<lparr>needsActivation := False, persisted_op := None,
                        last_checkpoint_lsn := Some ''0000000A''\<rparr> = commit_batch\<lparr>persisted_op := None\<rparr>"
    by (simp add: commit_batch_def)
  ultimately have 3: "\<exists>db2 d2. commit commit_batch commit_db ''0000000A'' True commit_env
         = Inr (True, commit_batch\<lparr>persisted_op := None\<rparr>, db2)
        \<and> notifications db2 > 0
        \<and> rules_of db2 1 = Some d2
        \<and> d_last_checkpoint d2 = Some 41 \<and> d_last_checkpoint_ts d2 = Some 200"
    using q(10) by auto
  from commit_behind_checkpoint_skips
    [of ?late "''0000000A''" "''0000000A''" commit_db commit_env ?late commit_db True]
    l'' le idle(2) before q
  have "commit ?late commit_db ''0000000A'' True commit_env =
      Inr (False, ?late,
           notifyCheckpoint
             (commit_db\<lparr>sync_rules := updateOne 1 (\<lambda>d. d\<lparr>d_keepalive_op := Some 41\<rparr>)
                 (sync_rules commit_db)\<rparr>))"
    by simp
  then have 4: "commit ?late commit_db ''0000000A'' True commit_env
       = Inr (False, ?late,
              commit_db\<lparr>sync_rules := [rules_doc\<lparr>d_keepalive_op := Some 41\<rparr>],
                        notifications := 1\<rparr>)"
    by (simp add: notifyCheckpoint_def commit_db_def rules_doc_def)
  from commit_behind_checkpoint_skips
    [of ?idle "''0000000A''" "''0000000A''" commit_db commit_env ?idle commit_db False]
    l''' le idle(3) after q
  have "commit ?idle commit_db ''0000000A'' False commit_env =
      Inr (True, ?idle\<lparr>needsActivation := False\<rparr>, snd (autoActivate ?idle commit_db))"
    by simp
  then have 5: "commit ?idle commit_db ''0000000A'' False commit_env = Inr (True, ?idle, commit_db)"
    by (simp add: autoActivate_def commit_batch_def)
  from l lt 1 2 3 4 5 show ?thesis by simp
qed

section \<open>Completion lines of bucketDataBatch\<close>

lemma note_chunk_fields:
  "has_more (note_chunk cp r st) = (c_has_more r \<or> has_more st)"
  "checkpointInvalidated (note_chunk cp r st) = (points_past cp r \<or> checkpointInvalidated st)"
  "yielded (note_chunk cp r st) = yielded st"
  by (auto simp: note_chunk_def points_past_def split: option.splits)

lemma send_chunk_fields:
  "has_more (send_chunk r st) = has_more st"
  "checkpointInvalidated (send_chunk r st) = checkpointInvalidated st"
  "completion_lines (yielded (send_chunk r st)) = completion_lines (yielded st)"
  by (simp_all add: send_chunk_def completion_lines_def)

lemma batch_loop_has_more:
  "has_more (exit_state (batch_loop cp rs st)) = (has_more st \<or> (\<exists>r\<in>set (handled rs). c_has_more r))"
  by (induction cp rs st rule: batch_loop.induct)
    (auto simp: Let_def note_chunk_fields send_chunk_fields)

lemma batch_loop_invalidated:
  "checkpointInvalidated (exit_state (batch_loop cp rs st)) =
     (checkpointInvalidated st \<or> (\<exists>r\<in>set (handled rs). points_past cp r))"
  by (induction cp rs st rule: batch_loop.induct)
    (auto simp: Let_def note_chunk_fields send_chunk_fields)

lemma batch_loop_returned:
  "(\<exists>st'. batch_loop cp rs st = Returned st') = connection_cut rs"
  by (induction cp rs st rule: batch_loop.induct) (auto simp: Let_def)

lemma batch_loop_completion:
  "completion_lines (yielded (exit_state (batch_loop cp rs st))) = completion_lines (yielded st)"
  by (induction cp rs st rule: batch_loop.induct)
    (auto simp: Let_def note_chunk_fields send_chunk_fields)

lemma batch_loop_cases:
  obtains st' where "batch_loop cp rs st = Returned st'" "connection_cut rs"
  | st' where "batch_loop cp rs st = Finished st'" "\<not> connection_cut rs"
  using batch_loop_returned [of cp rs st] by (cases "batch_loop cp rs st") auto

lemma bucketDataBatch_completion:
  "completion_lines (bucketDataBatch request acquired chunks) =
     (if acquired \<and> \<not> connection_cut chunks
         \<and> \<not> (\<exists>r\<in>set (handled chunks). c_has_more r)
         \<and> \<not> (\<exists>r\<in>set (handled chunks). points_past (checkpoint request) r)
      then [completion_for request] else [])"
proof (cases acquired)
  case False
  then show ?thesis by (simp add: bucketDataBatch_def completion_lines_def)
next
  case True
  show ?thesis
  proof (rule batch_loop_cases [of "checkpoint request" chunks initial_batch_state])
    fix st' assume r: "batch_loop (checkpoint request) chunks initial_batch_state = Returned st'"
      and c: "connection_cut chunks"
    have "completion_lines (yielded st') = []"
      using batch_loop_completion [of "checkpoint request" chunks initial_batch_state] r
      by (simp add: initial_batch_state_def completion_lines_def)
    with True r c show ?thesis by (simp add: bucketDataBatch_def)
  next
    fix st' assume r: "batch_loop (checkpoint request) chunks initial_batch_state = Finished st'"
      and c: "\<not> connection_cut chunks"
    have y: "completion_lines (yielded st') = []"
      using batch_loop_completion [of "checkpoint request" chunks initial_batch_state] r
      by (simp add: initial_batch_state_def completion_lines_def)
    have h: "has_more st' = (\<exists>r\<in>set (handled chunks). c_has_more r)"
      using batch_loop_has_more [of "checkpoint request" chunks initial_batch_state] r
      by (simp add: initial_batch_state_def)
    have i: "checkpointInvalidated st' = (\<exists>r\<in>set (handled chunks). points_past (checkpoint request) r)"
      using batch_loop_invalidated [of "checkpoint request" chunks initial_batch_state] r
      by (simp add: initial_batch_state_def)
    have f: "filter is_completion (map snd (yielded st')) = []"
      using y by (simp add: completion_lines_def)
    show ?thesis
      using True r c h i f
      by (simp add: bucketDataBatch_def completion_lines_def completion_for_def split: option.split)
  qed
qed


lemma bucketDataBatch_last:
  assumes "completion_lines (bucketDataBatch request acquired chunks) \<noteq> []"
  shows "last (bucketDataBatch request acquired chunks) = (True, completion_for request)"
proof -
  from assms have a: acquired and c: "\<not> connection_cut chunks"
    and h: "\<not> (\<exists>r\<in>set (handled chunks). c_has_more r)"
    and i: "\<not> (\<exists>r\<in>set (handled chunks). points_past (checkpoint request) r)"
    by (simp_all add: bucketDataBatch_completion split: if_splits)
  show ?thesis
  proof (rule batch_loop_cases [of "checkpoint request" chunks initial_batch_state])
    fix st' assume "batch_loop (checkpoint request) chunks initial_batch_state = Returned st'"
      "connection_cut chunks"
    with c show ?thesis by simp
  next
    fix st' assume r: "batch_loop (checkpoint request) chunks initial_batch_state = Finished st'"
    have "has_more st' = (\<exists>r\<in>set (handled chunks). c_has_more r)"
      using batch_loop_has_more [of "checkpoint request" chunks initial_batch_state] r
      by (simp add: initial_batch_state_def)
    moreover have "checkpointInvalidated st' = (\<exists>r\<in>set (handled chunks). points_past (checkpoint request) r)"
      using batch_loop_invalidated [of "checkpoint request" chunks initial_batch_state] r
      by (simp add: initial_batch_state_def)
    ultimately show ?thesis using a r h i
      by (simp add: bucketDataBatch_def completion_for_def split: option.split)
  qed
qed

text \<open>
  C4. In \<^verbatim>\<open>bucketDataBatch\<close> the checkpoint is marked invalidated exactly when a
  chunk the loop handles carries a \<^verbatim>\<open>targetOp\<close> strictly greater than the checkpoint
  op id, and an invalidated checkpoint never gets a completion line. When the
  semaphore was acquired, the loop was not left on an aborted connection and no
  handled chunk reports \<^verbatim>\<open>has_more\<close>, the completion line of the request
  (\<^verbatim>\<open>partial_checkpoint_complete\<close> for a priority, else \<^verbatim>\<open>checkpoint_complete\<close>) is
  emitted if and only if the checkpoint was not invalidated; it is then the last
  result, with \<^verbatim>\<open>done: true\<close>.
\<close>

theorem invalidated_checkpoint_not_completed:
  "checkpointInvalidated (exit_state (batch_loop (checkpoint request) chunks initial_batch_state))
     = (\<exists>r\<in>set (handled chunks). points_past (checkpoint request) r)
   \<and> ((\<exists>r\<in>set (handled chunks). points_past (checkpoint request) r) \<longrightarrow>
        completion_lines (bucketDataBatch request acquired chunks) = [])
   \<and> (acquired \<and> \<not> connection_cut chunks \<and> (\<forall>r\<in>set (handled chunks). \<not> c_has_more r) \<longrightarrow>
        (completion_lines (bucketDataBatch request acquired chunks) = [completion_for request]
           \<longleftrightarrow> \<not> (\<exists>r\<in>set (handled chunks). points_past (checkpoint request) r))
      \<and> (completion_lines (bucketDataBatch request acquired chunks) = []
           \<longleftrightarrow> (\<exists>r\<in>set (handled chunks). points_past (checkpoint request) r)))
   \<and> (completion_lines (bucketDataBatch request acquired chunks) \<noteq> [] \<longrightarrow>
        last (bucketDataBatch request acquired chunks) = (True, completion_for request))"
  using batch_loop_invalidated [of "checkpoint request" chunks initial_batch_state]
    bucketDataBatch_last [of request acquired chunks]
  by (simp add: bucketDataBatch_completion initial_batch_state_def)

text \<open>
  At checkpoint 10: a chunk with target op 11 invalidates the checkpoint, and the
  batch ends with \<^verbatim>\<open>null\<close> in place of a completion line; without it the batch
  ends with \<^verbatim>\<open>checkpoint_complete\<close>.
\<close>

theorem invalidated_checkpoint_not_completed_witness:
  "handled [plain_chunk ''a'', past_chunk ''b''] = [plain_chunk ''a'', past_chunk ''b'']
   \<and> points_past (checkpoint full_request) (past_chunk ''b'')
   \<and> \<not> connection_cut [plain_chunk ''a'', past_chunk ''b'']
   \<and> \<not> c_has_more (plain_chunk ''a'') \<and> \<not> c_has_more (past_chunk ''b'')
   \<and> completion_lines (bucketDataBatch full_request True [plain_chunk ''a'', past_chunk ''b'']) = []
   \<and> bucketDataBatch full_request True [plain_chunk ''a'', past_chunk ''b'']
       = [(False, SyncData ''a'' 2 7), (False, SyncData ''b'' 2 7), (True, NullLine)]
   \<and> handled [plain_chunk ''a''] = [plain_chunk ''a'']
   \<and> \<not> points_past (checkpoint full_request) (plain_chunk ''a'')
   \<and> \<not> connection_cut [plain_chunk ''a'']
   \<and> completion_lines (bucketDataBatch full_request True [plain_chunk ''a''])
       = [CheckpointComplete 10]
   \<and> last (bucketDataBatch full_request True [plain_chunk ''a'']) = (True, CheckpointComplete 10)"
proof -
  have h2: "handled [plain_chunk ''a'', past_chunk ''b''] = [plain_chunk ''a'', past_chunk ''b'']"
    and h1: "handled [plain_chunk ''a''] = [plain_chunk ''a'']"
    and c2: "\<not> connection_cut [plain_chunk ''a'', past_chunk ''b'']"
    and c1: "\<not> connection_cut [plain_chunk ''a'']"
    and m: "\<not> c_has_more (plain_chunk ''a'')" "\<not> c_has_more (past_chunk ''b'')"
    by (simp_all add: plain_chunk_def past_chunk_def)
  have p: "points_past (checkpoint full_request) (past_chunk ''b'')"
    and q: "\<not> points_past (checkpoint full_request) (plain_chunk ''a'')"
    by (simp_all add: points_past_def plain_chunk_def past_chunk_def full_request_def)
  have f: "completion_for full_request = CheckpointComplete 10"
    by (simp add: completion_for_def full_request_def)
  have e: "bucketDataBatch full_request True [plain_chunk ''a'', past_chunk ''b'']
       = [(False, SyncData ''a'' 2 7), (False, SyncData ''b'' 2 7), (True, NullLine)]"
    by code_simp
  note t2 = invalidated_checkpoint_not_completed
      [of full_request "[plain_chunk ''a'', past_chunk ''b'']" True]
  note t1 = invalidated_checkpoint_not_completed [of full_request "[plain_chunk ''a'']" True]
  from t2 h2 p have
    "completion_lines (bucketDataBatch full_request True [plain_chunk ''a'', past_chunk ''b'']) = []"
    by simp
  moreover from t1 h1 c1 m q f have
    "completion_lines (bucketDataBatch full_request True [plain_chunk ''a'']) = [CheckpointComplete 10]"
    by simp
  moreover from this t1 f have
    "last (bucketDataBatch full_request True [plain_chunk ''a'']) = (True, CheckpointComplete 10)"
    by simp
  ultimately show ?thesis using h1 h2 c1 c2 m p q e by simp
qed

section \<open>The order of the priority groups\<close>

text \<open>
  The comparator \<^verbatim>\<open>b[0] - a[0]\<close> sorts the groups by descending priority number,
  so the group taken last, which the code names \<^verbatim>\<open>lowestPriority\<close>, has the
  least number of all.
\<close>

lemma bucketsByPriority_descending:
  "sorted (map (\<lambda>g. - fst g) (bucketsByPriority bs))"
  by (simp add: bucketsByPriority_def)

lemma sorted_descending_last:
  "sorted xs \<Longrightarrow> x \<in> set xs \<Longrightarrow> x \<le> (last xs :: int)"
  by (induction xs) (auto simp: )

lemma lowestPriority_least:
  assumes "(p, g) \<in> set (bucketsByPriority bs)"
  shows "\<exists>l. lowestPriority (bucketsByPriority bs) = Some l \<and> l \<le> p"
proof -
  let ?gs = "bucketsByPriority bs"
  from assms have ne: "?gs \<noteq> []" by auto
  have s: "sorted (map (\<lambda>g. - fst g) ?gs)" by (rule bucketsByPriority_descending)
  have "last (map (\<lambda>g. - fst g) ?gs) = - fst (last ?gs)" using ne by (simp add: last_map)
  moreover have "- p \<in> set (map (\<lambda>g. - fst g) ?gs)" using assms by force
  ultimately have "- p \<le> - fst (last ?gs)"
    using s ne sorted_descending_last [of "map (\<lambda>g. - fst g) ?gs" "- p"] by simp
  then show ?thesis using ne by (simp add: lowestPriority_def)
qed

text \<open>
  C3. The claim is that the groups of \<^verbatim>\<open>bucketsToFetch\<close> are fetched from priority 0
  (the highest) to the numerically largest priority, with a
  \<^verbatim>\<open>partial_checkpoint_complete\<close> line after every group but the last and
  \<^verbatim>\<open>checkpoint_complete\<close> after the last. The code, evaluated at bucket \<^verbatim>\<open>a\<close> of
  priority 0 and bucket \<^verbatim>\<open>b\<close> of priority 3 at checkpoint 10: the groups are
  taken in the order 3, 0; \<^verbatim>\<open>lowestPriority\<close> is 0; the data of \<^verbatim>\<open>b\<close> comes first
  and is followed by \<^verbatim>\<open>partial_checkpoint_complete\<close> for priority 3; the data of
  \<^verbatim>\<open>a\<close> comes last and is followed by \<^verbatim>\<open>checkpoint_complete\<close>.
\<close>

theorem priority_order_at_two_priorities:
  "bucketsByPriority two_priorities
     = [(3, [\<lparr>bucket = ''b'', priority = 3\<rparr>]), (0, [\<lparr>bucket = ''a'', priority = 0\<rparr>])]
   \<and> lowestPriority (bucketsByPriority two_priorities) = Some 0
   \<and> checkpoint_iteration 10 two_priorities two_runs
       = Some [SyncData ''b'' 2 7, PartialCheckpointComplete 10 3,
               SyncData ''a'' 2 7, CheckpointComplete 10]"
  by code_simp

section \<open>The comparable form of a MongoLSN\<close>

text \<open>
  C10. The claim is that \<^verbatim>\<open>comparable\<close> renders the timestamp as 16 hexadecimal
  digits, high word then low word, so that the order of the strings is the order
  of the timestamps and \<^verbatim>\<open>fromSerialized\<close> recovers the timestamp, with
  \<^verbatim>\<open>ZERO_LSN\<close> the least. The code, evaluated at cluster time \<^verbatim>\<open>0x80000000\<close>: the
  high word reads as the negative Number \<^verbatim>\<open>-2147483648\<close>, whose \<^verbatim>\<open>toString(16)\<close> is
  \<^verbatim>\<open>-80000000\<close>, nine characters that \<^verbatim>\<open>padStart(8, '0')\<close> leaves as they are. The
  string has 17 characters and starts with a minus sign; it sorts before that of
  the earlier cluster time 1 and before \<^verbatim>\<open>ZERO_LSN\<close>; its first eight characters
  parse to \<^verbatim>\<open>-134217728\<close>, and \<^verbatim>\<open>fromSerialized\<close> fails on it.
\<close>

theorem comparable_at_2038:
  "comparable lsn_2038 = ''-8000000000000000''
   \<and> length (comparable lsn_2038) = 17
   \<and> comparable lsn_early = ''0000000100000000''
   \<and> timestamp_of (timestamp lsn_early) < timestamp_of (timestamp lsn_2038)
   \<and> comparable lsn_2038 < comparable lsn_early
   \<and> comparable lsn_2038 < ZERO_LSN
   \<and> parseInt16 (take 8 (comparable lsn_2038)) = Some (- 134217728)
   \<and> fromSerialized deserializeToken (comparable lsn_2038) = Inl InvalidTimestamp"
  by code_simp

section \<open>Rows that are too large\<close>

lemma placeholder_incomplete: "r \<noteq> [] \<Longrightarrow> \<not> isCompleteRow True (placeholder r)"
  by (cases r) (auto simp: isCompleteRow_def placeholder_def)

lemma placeholder_columns:
  "map fst (placeholder r) = map fst r" "list_all (\<lambda>(k, v). v = None) (placeholder r)"
  by (induction r) (auto simp: placeholder_def)

lemma serialize_after_oversized:
  assumes "storeCurrentData cfg" "aid \<noteq> None"
    and "bson_fails env r \<or> bson_length env r > MAX_ROW_SIZE"
    and "\<not> bson_fails env (placeholder r)"
  shows "serialize_after cfg env table aid (Some r) =
     Inr (Some (placeholder r), Some (Binary (placeholder r)),
          [DataTooBig (qualifiedName table)
             (if bson_fails env r then SerializeFailed else ROW_TOO_LARGE (bson_length env r))])"
  using assms by (auto simp: serialize_after_def try_serialize_def)

lemma serialize_after_fits:
  assumes "storeCurrentData cfg" "aid \<noteq> None"
    and "\<not> bson_fails env r" "bson_length env r \<le> MAX_ROW_SIZE"
  shows "serialize_after cfg env table aid (Some r) = Inr (Some r, Some (Binary r), [])"
  using assms by (auto simp: serialize_after_def try_serialize_def)

text \<open>
  C5, as the claim states it, fails in two places. The check is
  \<^verbatim>\<open>afterData.length() > MAX_ROW_SIZE\<close>: an inserted row whose serialisation is
  exactly 15 MiB is kept as it is, its op is saved and nothing is reported. And a
  row of one byte more is replaced by the placeholder and reported, and its
  current data is written, but no op is saved for it: the placeholder is not a
  complete row, so the sync rules are not evaluated.
\<close>

theorem row_of_15_MiB_counterexample:
  "tag (op_record insert_big) = INSERT
   \<and> bson_length (env_of_length (15 * 1024 * 1024)) big_row = 15 * 1024 * 1024
   \<and> saveOperation store_config (env_of_length (15 * 1024 * 1024)) insert_big None
       = Inr \<lparr>calls =
                [SaveBucketData (Some ''u1'') []
                   [\<lparr>e_bucket = ''global[]'', e_table = ''users'', e_id = ''u1'',
                     e_data = big_row\<rparr>],
                 UpsertCurrentData (1, ''t1'', Some ''u1'') (Binary big_row)
                   [\<lparr>cb_bucket = ''global[]'', cb_table = ''users'', cb_id = ''u1''\<rparr>] []],
              reports = [], warnings = 0, marked_unavailable = False,
              returned =
                Some \<lparr>cd_id = (1, ''t1'', Some ''u1''), cd_data = Binary big_row,
                      cd_buckets =
                        [\<lparr>cb_bucket = ''global[]'', cb_table = ''users'', cb_id = ''u1''\<rparr>],
                      cd_lookups = []\<rparr>\<rparr>
   \<and> bson_length (env_of_length 15728641) big_row = 15728641
   \<and> saveOperation store_config (env_of_length 15728641) insert_big None
       = Inr \<lparr>calls =
                [UpsertCurrentData (1, ''t1'', Some ''u1'')
                   (Binary [(''id'', None), (''bio'', None)]) [] []],
              reports = [DataTooBig ''public.users'' (ROW_TOO_LARGE 15728641)],
              warnings = 0, marked_unavailable = False,
              returned =
                Some \<lparr>cd_id = (1, ''t1'', Some ''u1''),
                      cd_data = Binary [(''id'', None), (''bio'', None)],
                      cd_buckets = [], cd_lookups = []\<rparr>\<rparr>"
  by code_simp

text \<open>
  C5, amended. When the current data is stored, for a record with a non-empty
  after id and a row of at least one column (after the TOAST merge, for an
  update of a stored row) whose placeholder serialises.

  If the call gets past the check for \<^verbatim>\<open>skipExistingRows\<close>, which it does when
  that is off, and during initial replication for an insert of a row without
  current data: a row whose serialisation is longer than \<^verbatim>\<open>MAX_ROW_SIZE\<close>, or
  fails, is replaced by a placeholder with the same columns, all empty; one
  warning goes to telemetry, with the \<^verbatim>\<open>ServiceError\<close> \<^verbatim>\<open>PSYNC_S1002\<close> and the length
  or with the failure; the call returns normally; the current data is written
  and returned with the serialisation of the placeholder and no buckets or
  lookups; and no call saves an evaluated row, so no \<^verbatim>\<open>PUT\<close> op is written. A row
  of at most \<^verbatim>\<open>MAX_ROW_SIZE\<close> that serialises is not reported, and its own
  serialisation is the current data.

  During initial replication, whatever the size of the row: an insert of a row
  that has current data is skipped, nothing is written or reported and
  \<^verbatim>\<open>null\<close> is returned; and any other record makes the call throw a
  \<^verbatim>\<open>ReplicationAssertionError\<close>.
\<close>

theorem oversized_row_replaced:
  assumes store: "storeCurrentData cfg"
    and aid: "afterId operation = Some a" "a \<noteq> []"
    and row: "merged_after cfg (op_record operation) current_data = Some r" "r \<noteq> []"
    and ok: "\<not> bson_fails env (placeholder r)"
  shows "(\<not> skipExistingRows cfg
          \<or> (tag (op_record operation) = INSERT \<and> current_data = None) \<longrightarrow>
          (bson_fails env r \<or> bson_length env r > MAX_ROW_SIZE \<longrightarrow>
            (\<exists>res. saveOperation cfg env operation current_data = Inr res
               \<and> reports res =
                   [DataTooBig (qualifiedName (sourceTable (op_record operation)))
                      (if bson_fails env r then SerializeFailed
                       else ROW_TOO_LARGE (bson_length env r))]
               \<and> returned res =
                   Some \<lparr>cd_id = (cfg_group_id cfg, t_id (sourceTable (op_record operation)), Some a),
                         cd_data = Binary (placeholder r), cd_buckets = [], cd_lookups = []\<rparr>
               \<and> UpsertCurrentData
                     (cfg_group_id cfg, t_id (sourceTable (op_record operation)), Some a)
                     (Binary (placeholder r)) [] [] \<in> set (calls res)
               \<and> \<not> list_ex saves_rows (calls res)))
        \<and> (\<not> bson_fails env r \<and> bson_length env r \<le> MAX_ROW_SIZE \<longrightarrow>
            (\<exists>res. saveOperation cfg env operation current_data = Inr res
               \<and> (\<forall>t e. DataTooBig t e \<notin> set (reports res))
               \<and> (\<exists>b l. returned res =
                     Some \<lparr>cd_id = (cfg_group_id cfg, t_id (sourceTable (op_record operation)), Some a),
                           cd_data = Binary r, cd_buckets = b, cd_lookups = l\<rparr>))))
       \<and> (skipExistingRows cfg \<and> tag (op_record operation) = INSERT \<and> current_data \<noteq> None \<longrightarrow>
            saveOperation cfg env operation current_data =
              Inr \<lparr>calls = [], reports = [], warnings = 0, marked_unavailable = False,
                   returned = None\<rparr>)
       \<and> (skipExistingRows cfg \<and> tag (op_record operation) \<noteq> INSERT \<longrightarrow>
            saveOperation cfg env operation current_data =
              Inl (ReplicationAssertionError (tag (op_record operation))))
       \<and> map fst (placeholder r) = map fst r
       \<and> list_all (\<lambda>(k, v). v = None) (placeholder r)"
proof -
  have t: "truthy (Some a)" using aid by (simp add: truthy_def)
  have inc: "\<not> isCompleteRow True (placeholder r)" using row(2) by (rule placeholder_incomplete)
  have big: "\<exists>res. saveOperation cfg env operation current_data = Inr res
             \<and> reports res =
                 [DataTooBig (qualifiedName (sourceTable (op_record operation)))
                    (if bson_fails env r then SerializeFailed
                     else ROW_TOO_LARGE (bson_length env r))]
             \<and> returned res =
                 Some \<lparr>cd_id = (cfg_group_id cfg, t_id (sourceTable (op_record operation)), Some a),
                       cd_data = Binary (placeholder r), cd_buckets = [], cd_lookups = []\<rparr>
             \<and> UpsertCurrentData
                   (cfg_group_id cfg, t_id (sourceTable (op_record operation)), Some a)
                   (Binary (placeholder r)) [] [] \<in> set (calls res)
             \<and> \<not> list_ex saves_rows (calls res)"
    if b: "bson_fails env r \<or> bson_length env r > MAX_ROW_SIZE"
      and p1: "\<not> (skipExistingRows cfg \<and> tag (op_record operation) \<noteq> INSERT)"
      and p2: "\<not> (skipExistingRows cfg \<and> current_data \<noteq> None)"
  proof -
    have s: "serialize_after cfg env (sourceTable (op_record operation)) (Some a) (Some r) =
       Inr (Some (placeholder r), Some (Binary (placeholder r)),
          [DataTooBig (qualifiedName (sourceTable (op_record operation)))
             (if bson_fails env r then SerializeFailed else ROW_TOO_LARGE (bson_length env r))])"
      using store b ok by (intro serialize_after_oversized) simp_all
    show ?thesis
      using aid(1) row(1) store t inc p1 p2
      by (cases "skipExistingRows cfg") (simp_all add: saveOperation_def Let_def s)
  qed
  have fits: "\<exists>res. saveOperation cfg env operation current_data = Inr res
             \<and> (\<forall>t e. DataTooBig t e \<notin> set (reports res))
             \<and> (\<exists>b l. returned res =
                   Some \<lparr>cd_id = (cfg_group_id cfg, t_id (sourceTable (op_record operation)), Some a),
                         cd_data = Binary r, cd_buckets = b, cd_lookups = l\<rparr>)"
    if f: "\<not> bson_fails env r" "bson_length env r \<le> MAX_ROW_SIZE"
      and p1: "\<not> (skipExistingRows cfg \<and> tag (op_record operation) \<noteq> INSERT)"
      and p2: "\<not> (skipExistingRows cfg \<and> current_data \<noteq> None)"
  proof -
    have s: "serialize_after cfg env (sourceTable (op_record operation)) (Some a) (Some r) =
       Inr (Some r, Some (Binary r), [])"
      using store f by (intro serialize_after_fits) simp_all
    show ?thesis
      using aid(1) row(1) store t p1 p2
      by (cases "skipExistingRows cfg") (auto simp: saveOperation_def Let_def s)
  qed
  have past: "\<not> (skipExistingRows cfg \<and> tag (op_record operation) \<noteq> INSERT)
        \<and> \<not> (skipExistingRows cfg \<and> current_data \<noteq> None)"
    if "\<not> skipExistingRows cfg \<or> (tag (op_record operation) = INSERT \<and> current_data = None)"
    using that by blast
  have skipped: "saveOperation cfg env operation current_data =
              Inr \<lparr>calls = [], reports = [], warnings = 0, marked_unavailable = False,
                   returned = None\<rparr>"
    if "skipExistingRows cfg" "tag (op_record operation) = INSERT" "current_data \<noteq> None"
    using that by (simp add: saveOperation_def Let_def)
  have thrown: "saveOperation cfg env operation current_data =
              Inl (ReplicationAssertionError (tag (op_record operation)))"
    if "skipExistingRows cfg" "tag (op_record operation) \<noteq> INSERT"
    using that by (simp add: saveOperation_def Let_def)
  from big fits past skipped thrown placeholder_columns [of r] show ?thesis by blast
qed

text \<open>
  The insert of the example row at a length of 15 MiB plus one byte, and at
  15 MiB; and, during initial replication, the insert of the row when it is new,
  its insert when it is stored already, and an update of it.
\<close>

theorem oversized_row_replaced_witness:
  "storeCurrentData store_config \<and> \<not> skipExistingRows store_config
   \<and> afterId insert_big = Some ''u1'' \<and> ''u1'' \<noteq> []
   \<and> merged_after store_config (op_record insert_big) None = Some big_row \<and> big_row \<noteq> []
   \<and> \<not> bson_fails (env_of_length 15728641) (placeholder big_row)
   \<and> bson_length (env_of_length 15728641) big_row > MAX_ROW_SIZE
   \<and> (\<exists>res. saveOperation store_config (env_of_length 15728641) insert_big None = Inr res
         \<and> reports res = [DataTooBig ''public.users'' (ROW_TOO_LARGE 15728641)]
         \<and> UpsertCurrentData (1, ''t1'', Some ''u1'') (Binary (placeholder big_row)) [] []
             \<in> set (calls res)
         \<and> \<not> list_ex saves_rows (calls res))
   \<and> \<not> bson_fails (env_of_length 15728640) big_row
   \<and> bson_length (env_of_length 15728640) big_row \<le> MAX_ROW_SIZE
   \<and> (\<exists>res b l. saveOperation store_config (env_of_length 15728640) insert_big None = Inr res
         \<and> returned res = Some \<lparr>cd_id = (1, ''t1'', Some ''u1''), cd_data = Binary big_row,
                                 cd_buckets = b, cd_lookups = l\<rparr>)
   \<and> placeholder big_row = [(''id'', None), (''bio'', None)]
   \<and> skipExistingRows initial_config \<and> tag (op_record insert_big) = INSERT
   \<and> (\<exists>res. saveOperation initial_config (env_of_length 15728641) insert_big None = Inr res
         \<and> reports res = [DataTooBig ''public.users'' (ROW_TOO_LARGE 15728641)]
         \<and> \<not> list_ex saves_rows (calls res))
   \<and> saveOperation initial_config (env_of_length 15728641) insert_big (Some stored_doc)
       = Inr \<lparr>calls = [], reports = [], warnings = 0, marked_unavailable = False,
              returned = None\<rparr>
   \<and> tag (op_record update_big) = UPDATE
   \<and> saveOperation initial_config (env_of_length 15728641) update_big (Some stored_doc)
       = Inl (ReplicationAssertionError UPDATE)"
proof -
  have c: "storeCurrentData store_config" and ns: "\<not> skipExistingRows store_config"
    and ci: "storeCurrentData initial_config" and sk: "skipExistingRows initial_config"
    by (simp_all add: store_config_def initial_config_def)
  have a: "afterId insert_big = Some ''u1''" "''u1'' \<noteq> []" by (simp_all add: insert_big_def)
  have au: "afterId update_big = Some ''u1''" by (simp add: update_big_def)
  have r: "merged_after store_config (op_record insert_big) None = Some big_row" "big_row \<noteq> []"
    by (simp_all add: merged_after_def insert_big_def big_row_def)
  have ri: "merged_after initial_config (op_record insert_big) None = Some big_row"
    "merged_after initial_config (op_record insert_big) (Some stored_doc) = Some big_row"
    by (simp_all add: merged_after_def insert_big_def)
  have ru: "merged_after initial_config (op_record update_big) (Some stored_doc) = Some big_row"
    by (simp add: merged_after_def update_big_def initial_config_def store_config_def
        mergeToast_def big_row_def)
  have tg: "tag (op_record insert_big) = INSERT" "tag (op_record update_big) = UPDATE"
    by (simp_all add: insert_big_def update_big_def)
  have ok: "\<not> bson_fails (env_of_length n) x" for n x by (simp add: env_of_length_def)
  have big: "bson_length (env_of_length 15728641) big_row > MAX_ROW_SIZE"
    and fit: "bson_length (env_of_length 15728640) big_row \<le> MAX_ROW_SIZE"
    by (simp_all add: env_of_length_def MAX_ROW_SIZE_def)
  have q: "qualifiedName (sourceTable (op_record insert_big)) = ''public.users''"
    "t_id (sourceTable (op_record insert_big)) = ''t1''" "cfg_group_id store_config = 1"
    "bson_length (env_of_length 15728641) big_row = 15728641"
    by (simp_all add: insert_big_def users_table_def store_config_def env_of_length_def)
  have p: "placeholder big_row = [(''id'', None), (''bio'', None)]"
    by (simp add: placeholder_def big_row_def)
  note t1 = oversized_row_replaced [where env = "env_of_length 15728641", OF c a r ok]
  note t2 = oversized_row_replaced [where env = "env_of_length 15728640", OF c a r ok]
  note t3 = oversized_row_replaced [where env = "env_of_length 15728641", OF ci a ri(1) r(2) ok]
  note t4 = oversized_row_replaced [where env = "env_of_length 15728641", OF ci a ri(2) r(2) ok]
  note t5 = oversized_row_replaced [where env = "env_of_length 15728641", OF ci au a(2) ru r(2) ok]
  from t1 ns big ok q have
    "\<exists>res. saveOperation store_config (env_of_length 15728641) insert_big None = Inr res
         \<and> reports res = [DataTooBig ''public.users'' (ROW_TOO_LARGE 15728641)]
         \<and> UpsertCurrentData (1, ''t1'', Some ''u1'') (Binary (placeholder big_row)) [] []
             \<in> set (calls res)
         \<and> \<not> list_ex saves_rows (calls res)"
    by auto
  moreover from t2 ns fit ok q have
    "\<exists>res b l. saveOperation store_config (env_of_length 15728640) insert_big None = Inr res
         \<and> returned res = Some \<lparr>cd_id = (1, ''t1'', Some ''u1''), cd_data = Binary big_row,
                                 cd_buckets = b, cd_lookups = l\<rparr>"
    by auto
  moreover from t3 tg(1) big ok q have
    "\<exists>res. saveOperation initial_config (env_of_length 15728641) insert_big None = Inr res
         \<and> reports res = [DataTooBig ''public.users'' (ROW_TOO_LARGE 15728641)]
         \<and> \<not> list_ex saves_rows (calls res)"
    by auto
  moreover from t4 sk tg(1) have
    "saveOperation initial_config (env_of_length 15728641) insert_big (Some stored_doc)
       = Inr \<lparr>calls = [], reports = [], warnings = 0, marked_unavailable = False,
              returned = None\<rparr>"
    by simp
  moreover from t5 sk tg(2) have
    "saveOperation initial_config (env_of_length 15728641) update_big (Some stored_doc)
       = Inl (ReplicationAssertionError UPDATE)"
    by simp
  ultimately show ?thesis using c ns sk tg a r ok big fit p by simp
qed

section \<open>The cap on transaction retries\<close>

lemma run_attempts_conflicts:
  assumes "conflicts pre" "within_cap t0 (Suc n) pre"
  shows "run_attempts t0 n (pre @ rest) = run_attempts t0 (n + length pre) rest"
  using assms
proof (induction pre arbitrary: n)
  case Nil
  then show ?case by simp
next
  case (Cons a pre)
  then have "\<not> tries_exceeded t0 (Suc n) (at_now a)"
    by (auto simp: tries_exceeded_def)
  moreover from Cons.prems have "at_outcome a = Failed TransientTransactionError" "at_driver_retries a"
    by (simp_all add: conflicts_def)
  moreover from Cons have "run_attempts t0 (Suc n) (pre @ rest) = run_attempts t0 (Suc n + length pre) rest"
    by (simp add: conflicts_def)
  ultimately show ?case by simp
qed

lemma run_attempts_tries: "run_attempts t0 n as = Some (k, r) \<Longrightarrow> n < k"
proof (induction as arbitrary: n)
  case Nil
  then show ?case by simp
next
  case (Cons a as)
  then show ?case
    by (fastforce simp: Let_def split: if_splits tx_outcome.splits)
qed

text \<open>
  C6, as the claim states it, fails when the cap of 20 tries or 90 seconds is
  taken as reached with either bound: the guard is
  \<^verbatim>\<open>flushTry > 20 && Date.now() > lastTry\<close>. A transaction started at time 0
  whose tries all meet a transient conflict is still being retried after 25
  tries made within the first second; and one whose tries are made two minutes
  after the start is still being retried after 20 of them.
\<close>

theorem retries_past_either_bound_counterexample:
  "conflicts fast_conflicts \<and> length fast_conflicts = 25
   \<and> at_now (last fast_conflicts) = 1000
   \<and> withReplicationTransaction 0 fast_conflicts = None
   \<and> conflicts slow_conflicts \<and> length slow_conflicts = 20
   \<and> at_now (hd slow_conflicts) = 120000
   \<and> withReplicationTransaction 0 slow_conflicts = None"
  by code_simp

text \<open>
  C6, amended. A replication transaction that keeps failing with transient
  conflicts is retried as long as every try is among the first 20 or is made at
  most 90 seconds after the start: neither bound alone ends the retries. The
  first try that is beyond the 20th and also later than 90 seconds after the
  start ends the transaction with the error \<^verbatim>\<open>PSYNC_S1402\<close>,
  \<^verbatim>\<open>Max transaction tries exceeded\<close>, whatever would follow; and only such a try
  gives that error.
\<close>

theorem transaction_retries_capped:
  "(conflicts pre \<and> within_cap t0 1 pre \<longrightarrow>
      withReplicationTransaction t0 pre = None)
   \<and> (conflicts pre \<and> within_cap t0 1 pre
        \<and> length pre \<ge> 20 \<and> at_now a > t0 + 90000 \<longrightarrow>
      withReplicationTransaction t0 (pre @ a # rest)
        = Some (Suc (length pre), Failed (PSYNC_S1402 ''Max transaction tries exceeded'')))
   \<and> (withReplicationTransaction t0 (pre @ a # rest)
        = Some (Suc (length pre), Failed (PSYNC_S1402 ''Max transaction tries exceeded''))
      \<and> at_outcome a \<noteq> Failed (PSYNC_S1402 ''Max transaction tries exceeded'')
      \<and> conflicts pre \<and> within_cap t0 1 pre \<longrightarrow>
        length pre \<ge> 20 \<and> at_now a > t0 + 90000)"
proof -
  have r: "withReplicationTransaction t0 (pre @ rest') = run_attempts t0 (length pre) rest'"
    if "conflicts pre" "within_cap t0 1 pre" for rest'
    using run_attempts_conflicts [of pre t0 0 rest'] that
    by (simp add: withReplicationTransaction_def)
  have 1: "withReplicationTransaction t0 pre = None" if "conflicts pre" "within_cap t0 1 pre"
    using r [OF that, of "[]"] by simp
  have 2: "withReplicationTransaction t0 (pre @ a # rest)
        = Some (Suc (length pre), Failed (PSYNC_S1402 ''Max transaction tries exceeded''))"
    if "conflicts pre" "within_cap t0 1 pre" "length pre \<ge> 20" "at_now a > t0 + 90000"
    using r [OF that(1,2), of "a # rest"] that(3,4) by (simp add: tries_exceeded_def)
  have 3: "length pre \<ge> 20 \<and> at_now a > t0 + 90000"
    if e: "withReplicationTransaction t0 (pre @ a # rest)
        = Some (Suc (length pre), Failed (PSYNC_S1402 ''Max transaction tries exceeded''))"
      and o: "at_outcome a \<noteq> Failed (PSYNC_S1402 ''Max transaction tries exceeded'')"
      and c: "conflicts pre" "within_cap t0 1 pre"
  proof (rule ccontr)
    assume n: "\<not> (length pre \<ge> 20 \<and> at_now a > t0 + 90000)"
    then have g: "\<not> tries_exceeded t0 (Suc (length pre)) (at_now a)"
      by (auto simp: tries_exceeded_def)
    have "run_attempts t0 (length pre) (a # rest)
        = Some (Suc (length pre), Failed (PSYNC_S1402 ''Max transaction tries exceeded''))"
      using r [OF c, of "a # rest"] e by simp
    with g o show False
      by (auto simp: Let_def split: tx_outcome.splits if_splits dest: run_attempts_tries)
  qed
  from 1 2 3 show ?thesis by blast
qed


text \<open>
  Started at time 0: 25 conflicts within the first second are all retried; after
  20 conflicts at two minutes, the 21st try ends with the error.
\<close>

theorem transaction_retries_capped_witness:
  "conflicts fast_conflicts \<and> within_cap 0 1 fast_conflicts \<and> length fast_conflicts = 25
   \<and> withReplicationTransaction 0 fast_conflicts = None
   \<and> conflicts slow_conflicts \<and> within_cap 0 1 slow_conflicts \<and> length slow_conflicts \<ge> 20
   \<and> at_now (conflict_at 120050) > 0 + 90000
   \<and> at_outcome (conflict_at 120050) \<noteq> Failed (PSYNC_S1402 ''Max transaction tries exceeded'')
   \<and> withReplicationTransaction 0 (slow_conflicts @ conflict_at 120050 # [conflict_at 120100])
       = Some (21, Failed (PSYNC_S1402 ''Max transaction tries exceeded''))"
proof -
  have f: "conflicts fast_conflicts" "within_cap 0 1 fast_conflicts" "length fast_conflicts = 25"
    by code_simp+
  have s: "conflicts slow_conflicts" "within_cap 0 1 slow_conflicts" "length slow_conflicts \<ge> 20"
    by code_simp+
  have l: "length slow_conflicts = 20" by (simp add: slow_conflicts_def)
  have a: "at_now (conflict_at 120050) > 0 + 90000"
    "at_outcome (conflict_at 120050) \<noteq> Failed (PSYNC_S1402 ''Max transaction tries exceeded'')"
    by (simp_all add: conflict_at_def)
  from transaction_retries_capped [of fast_conflicts 0] f
  have "withReplicationTransaction 0 fast_conflicts = None" by blast
  moreover from transaction_retries_capped
      [of slow_conflicts 0 "conflict_at 120050" "[conflict_at 120100]"] s a l
  have "withReplicationTransaction 0 (slow_conflicts @ conflict_at 120050 # [conflict_at 120100])
       = Some (21, Failed (PSYNC_S1402 ''Max transaction tries exceeded''))"
    by simp
  ultimately show ?thesis using f s a by simp
qed


section \<open>The demultiplexer: what holds in every reachable state\<close>

lemma inv_initial: "demux_inv initial_demux"
  by (simp add: demux_inv_def initial_demux_def slot_list_def published_def
      fields_agree_def current_alive_def no_empty_set_def only_current_active_def
      unstarted_blank_def registered_def unowned_empty_def reads_published_def)

lemma subseq_append_left: "subseq (xs @ ys) zs \<Longrightarrow> subseq xs zs"
  by (metis subseq_order.order_trans subseq_rev_drop_many subseq_order.order_refl
      list_emb_append2 sublist_imp_subseq prefix_imp_sublist prefixI)

lemma demux_invI:
  "\<lbrakk>fields_agree st; current_alive st; no_empty_set st; only_current_active st;
    unstarted_blank st; registered st; unowned_empty st; reads_published st\<rbrakk>
   \<Longrightarrow> demux_inv st"
  by (simp add: demux_inv_def)

lemma demux_invD:
  assumes "demux_inv st"
  shows "fields_agree st" "current_alive st" "no_empty_set st" "only_current_active st"
    "unstarted_blank st" "registered st" "unowned_empty st" "reads_published st"
  using assms by (simp_all add: demux_inv_def)

lemma inv_first_value:
  assumes inv: "demux_inv st" and own: "sink_of st sink = Some x"
  shows "demux_inv (st\<lparr>first_sent := insert sink (first_sent st)\<rparr>)"
proof (rule demux_invI)
  note d = demux_invD [OF inv]
  show "fields_agree (st\<lparr>first_sent := insert sink (first_sent st)\<rparr>)"
    using d(1) by (simp add: fields_agree_def)
  show "current_alive (st\<lparr>first_sent := insert sink (first_sent st)\<rparr>)"
    using d(2) by (simp add: current_alive_def)
  show "no_empty_set (st\<lparr>first_sent := insert sink (first_sent st)\<rparr>)"
    using d(3) by (simp add: no_empty_set_def)
  show "only_current_active (st\<lparr>first_sent := insert sink (first_sent st)\<rparr>)"
    using d(4) by (simp add: only_current_active_def)
  show "unstarted_blank (st\<lparr>first_sent := insert sink (first_sent st)\<rparr>)"
    using d(5) by (simp add: unstarted_blank_def)
  show "registered (st\<lparr>first_sent := insert sink (first_sent st)\<rparr>)"
    using d(6) by (simp add: registered_def)
  show "unowned_empty (st\<lparr>first_sent := insert sink (first_sent st)\<rparr>)"
    using d(7) own by (auto simp: unowned_empty_def)
  show "reads_published (st\<lparr>first_sent := insert sink (first_sent st)\<rparr>)"
    using d(8) by (simp add: reads_published_def slot_list_def published_def)
qed

lemma inv_read:
  assumes inv: "demux_inv st" and f: "sink \<in> first_sent st" and v: "slot st sink = Some v"
  shows "demux_inv (st\<lparr>reads := (reads st)(sink := reads st sink @ [v]),
                       slot := (slot st)(sink := None)\<rparr>)"
    (is "demux_inv ?st'")
proof (rule demux_invI)
  note d = demux_invD [OF inv]
  show "fields_agree ?st'" using d(1) by (simp add: fields_agree_def)
  show "current_alive ?st'" using d(2) by (simp add: current_alive_def)
  show "no_empty_set ?st'" using d(3) by (simp add: no_empty_set_def)
  show "only_current_active ?st'" using d(4) by (simp add: only_current_active_def)
  show "unstarted_blank ?st'" using d(5) by (simp add: unstarted_blank_def)
  show "registered ?st'" using d(6) by (simp add: registered_def)
  show "unowned_empty ?st'"
    unfolding unowned_empty_def
  proof (intro allI impI)
    fix s assume "sink_of ?st' s = None"
    then have "sink_of st s = None" by simp
    with d(7) have e: "slot st s = None" "reads st s = []" "s \<notin> first_sent st"
      by (auto simp: unowned_empty_def)
    with f have "s \<noteq> sink" by auto
    with e show "slot ?st' s = None \<and> reads ?st' s = [] \<and> s \<notin> first_sent ?st'" by simp
  qed
  show "reads_published ?st'"
    unfolding reads_published_def
  proof (intro allI impI)
    fix s g k assume o: "sink_of ?st' s = Some (g, k)"
    then have o': "sink_of st s = Some (g, k)" by simp
    from d(8) o' have g: "g < sources_started st"
      and sub: "subseq (reads st s @ slot_list st s) (published st g k)"
      by (auto simp: reads_published_def)
    have "reads ?st' s @ slot_list ?st' s = reads st s @ slot_list st s"
      using v by (simp add: slot_list_def)
    with g sub show "g < sources_started ?st' \<and> subseq (reads ?st' s @ slot_list ?st' s) (published ?st' g k)"
      by (simp add: published_def)
  qed
qed


lemma sinks_in_empty: "sinks_in m = {} \<longleftrightarrow> (\<forall>k S. m k = Some S \<longrightarrow> S = {})"
  by (auto simp: sinks_in_def ran_def)

lemma inv_removeSink:
  assumes inv: "demux_inv st"
  shows "demux_inv (removeSink st key sink)"
proof (cases "subscribers st")
  case None
  then show ?thesis using inv by (simp add: removeSink_def)
next
  case (Some m)
  note d = demux_invD [OF inv]
  from d(1) Some have cur: "currentSource st = Some m" and ctl: "abortController st = Some m"
    by (simp_all add: fields_agree_def)
  show ?thesis
  proof (cases "listeners st m key")
    case None
    then show ?thesis using inv Some by (simp add: removeSink_def)
  next
    case (Some existing)
    define map' where "map' = (if existing - {sink} = {} then (listeners st m)(key := None)
                           else (listeners st m)(key \<mapsto> existing - {sink}))"
    define st1 where "st1 = st\<lparr>listeners := (listeners st)(m := map')\<rparr>"
    define st2 where "st2 = st1\<lparr>aborted := insert m (aborted st), subscribers := None,
                           abortController := None, currentSource := None\<rparr>"
    have r: "removeSink st key sink = (if dom map' = {} then st2 else st1)"
      using \<open>subscribers st = Some m\<close> Some ctl
      by (simp add: removeSink_def Let_def map'_def st1_def st2_def)
    have l1: "listeners st1 g = (if g = m then map' else listeners st g)" for g
      by (simp add: st1_def)
    have sub: "map' k = Some S \<Longrightarrow> \<exists>S'. listeners st m k = Some S' \<and> S \<subseteq> S' \<and> S \<noteq> {}" for k S
      using Some d(3) by (auto simp: map'_def no_empty_set_def split: if_splits)
    have reg1: "registered st1"
      unfolding registered_def
    proof (intro allI impI)
      fix g k S s assume a: "listeners st1 g k = Some S \<and> s \<in> S"
      show "sink_of st1 s = Some (g, k)"
      proof (cases "g = m")
        case True
        with a l1 have "map' k = Some S" by simp
        from sub [OF this] a obtain S' where "listeners st m k = Some S'" "s \<in> S'" by auto
        with d(6) True show ?thesis by (auto simp: registered_def st1_def)
      next
        case False
        with a l1 d(6) show ?thesis by (auto simp: registered_def st1_def)
      qed
    qed
    have ne1: "no_empty_set st1"
      unfolding no_empty_set_def
    proof (intro allI)
      fix g k show "listeners st1 g k \<noteq> Some {}"
        using l1 [of g] sub [of k "{}"] d(3) by (auto simp: no_empty_set_def)
    qed
    have ub1: "unstarted_blank st1"
    proof -
      have "m < sources_started st"
        using d(2) d(5) cur by (force simp: current_alive_def unstarted_blank_def not_le [symmetric])
      with d(5) show ?thesis by (auto simp: unstarted_blank_def st1_def)
    qed
    have uo1: "unowned_empty st1" using d(7) by (simp add: unowned_empty_def st1_def)
    have rp1: "reads_published st1"
      using d(8) by (simp add: reads_published_def st1_def slot_list_def published_def)
    show ?thesis
    proof (cases "dom map' = {}")
      case True
      have "demux_inv st2"
      proof (rule demux_invI)
        show "fields_agree st2" by (simp add: fields_agree_def st2_def)
        show "current_alive st2" by (simp add: current_alive_def st2_def)
        show "no_empty_set st2" using ne1 by (simp add: no_empty_set_def st2_def)
        show "only_current_active st2"
          using d(4) cur by (auto simp: only_current_active_def st2_def st1_def)
        show "unstarted_blank st2"
          using ub1 d(2) d(5) cur
          by (auto simp: unstarted_blank_def st2_def st1_def current_alive_def)
        show "registered st2" using reg1 by (simp add: registered_def st2_def)
        show "unowned_empty st2" using uo1 by (simp add: unowned_empty_def st2_def)
        show "reads_published st2"
          using rp1 by (simp add: reads_published_def st2_def slot_list_def published_def)
      qed
      with r True show ?thesis by simp
    next
      case False
      have "demux_inv st1"
      proof (rule demux_invI)
        show "fields_agree st1" using d(1) by (simp add: fields_agree_def st1_def)
        show "current_alive st1"
          using d(2) False cur by (auto simp: current_alive_def st1_def)
        show "no_empty_set st1" by (rule ne1)
        show "only_current_active st1" using d(4) by (simp add: only_current_active_def st1_def)
        show "unstarted_blank st1" by (rule ub1)
        show "registered st1" by (rule reg1)
        show "unowned_empty st1" by (rule uo1)
        show "reads_published st1" by (rule rp1)
      qed
      with r False show ?thesis by simp
    qed
  qed
qed


lemma inv_loop_exit:
  assumes inv: "demux_inv st"
    and st': "st' = loop_finally (st\<lparr>aborted := A, errored := E, ended := D\<rparr>) n"
    and A: "A = aborted st \<or> A = insert n (aborted st)"
    and run: "n \<in> running st"
  shows "demux_inv st'"
proof -
  note d = demux_invD [OF inv]
  define st1 where "st1 = st\<lparr>aborted := A, errored := E, ended := D\<rparr>"
  have fields: "subscribers st1 = subscribers st" "currentSource st1 = currentSource st"
    "abortController st1 = abortController st" "running st1 = running st"
    "listeners st1 = listeners st" "aborted st1 = A"
    by (simp_all add: st1_def)
  have s: "st' = (if subscribers st = Some n
      then st1\<lparr>running := running st - {n}, subscribers := None, abortController := None,
               currentSource := None\<rparr>
      else st1\<lparr>running := running st - {n}\<rparr>)"
    by (simp add: st' loop_finally_def Let_def st1_def)
  have ub: "n < sources_started st"
    using d(5) run by (force simp: unstarted_blank_def not_le [symmetric])
  show ?thesis
  proof (rule demux_invI)
    show "fields_agree st'" using d(1) by (auto simp: s fields_agree_def st1_def)
    show "current_alive st'"
      using d(1,2) A by (auto simp: s current_alive_def st1_def fields_agree_def)
    show "no_empty_set st'" using d(3) by (auto simp: s no_empty_set_def st1_def)
    show "only_current_active st'"
      using d(1,4) A by (auto simp: s only_current_active_def st1_def fields_agree_def)
    show "registered st'" using d(6) by (auto simp: s registered_def st1_def)
    show "unowned_empty st'" using d(7) by (auto simp: s unowned_empty_def st1_def)
    show "reads_published st'"
      using d(8) by (auto simp: s reads_published_def st1_def slot_list_def published_def)
    show "unstarted_blank st'"
      using d(5) A ub by (auto simp: s unstarted_blank_def st1_def)
  qed
qed


lemma inv_loop_catch: "demux_inv st \<Longrightarrow> n \<in> running st \<Longrightarrow> demux_inv (loop_catch st n)"
  by (rule inv_loop_exit [where A = "insert n (aborted st)"
        and E = "errored st \<union> sinks_in (listeners st n)" and D = "ended st"])
     (simp_all add: loop_catch_def)

lemma inv_loop_end: "demux_inv st \<Longrightarrow> n \<in> running st \<Longrightarrow> demux_inv (loop_end st n)"
  by (rule inv_loop_exit [where A = "aborted st" and E = "errored st"
        and D = "ended st \<union> sinks_in (listeners st n)"])
     (simp_all add: loop_end_def)


lemma running_started: "demux_inv st \<Longrightarrow> n \<in> running st \<Longrightarrow> n < sources_started st"
  by (force simp: demux_inv_def unstarted_blank_def not_le [symmetric])

lemma published_append:
  "published (st\<lparr>upstream := (upstream st)(n := upstream st n @ [(key, v)])\<rparr>) g k =
     (if g = n \<and> k = key then published st g k @ [v] else published st g k)"
  by (simp add: published_def)

lemma inv_publish:
  assumes inv: "demux_inv st" and n: "n < sources_started st"
    and w: "\<forall>s. slot st' s = (if s \<in> S then Some v else slot st s)"
    and S: "\<forall>s\<in>S. sink_of st s = Some (n, key)"
    and st': "st' = st\<lparr>upstream := (upstream st)(n := upstream st n @ [(key, v)]), slot := sl\<rparr>"
  shows "demux_inv st'"
proof (rule demux_invI)
  note d = demux_invD [OF inv]
  show "fields_agree st'" using d(1) by (simp add: st' fields_agree_def)
  show "current_alive st'" using d(2) by (simp add: st' current_alive_def)
  show "no_empty_set st'" using d(3) by (simp add: st' no_empty_set_def)
  show "only_current_active st'" using d(4) by (simp add: st' only_current_active_def)
  show "unstarted_blank st'" using d(5) n by (auto simp: st' unstarted_blank_def)
  show "registered st'" using d(6) by (simp add: st' registered_def)
  show "unowned_empty st'"
    unfolding unowned_empty_def
  proof (intro allI impI)
    fix s assume "sink_of st' s = None"
    then have o: "sink_of st s = None" by (simp add: st')
    with S have "s \<notin> S" by auto
    moreover from d(7) o have "slot st s = None" "reads st s = []" "s \<notin> first_sent st"
      by (auto simp: unowned_empty_def)
    ultimately show "slot st' s = None \<and> reads st' s = [] \<and> s \<notin> first_sent st'"
      using w by (simp add: st')
  qed
  show "reads_published st'"
    unfolding reads_published_def
  proof (intro allI impI)
    fix s g k assume "sink_of st' s = Some (g, k)"
    then have o: "sink_of st s = Some (g, k)" by (simp add: st')
    with d(8) have g: "g < sources_started st"
      and sub: "subseq (reads st s @ slot_list st s) (published st g k)"
      by (auto simp: reads_published_def)
    have r: "reads st' s = reads st s" "sources_started st' = sources_started st"
      by (simp_all add: st')
    have "subseq (reads st s @ slot_list st' s) (published st' g k)"
    proof (cases "s \<in> S")
      case True
      with S o have gk: "g = n" "k = key" by auto
      have "slot_list st' s = [v]" using w True by (simp add: slot_list_def)
      moreover have "published st' g k = published st g k @ [v]"
        using gk by (simp add: st' published_def)
      moreover have "subseq (reads st s) (published st g k)"
        using sub by (rule subseq_append_left)
      ultimately show ?thesis by (simp add: list_emb_append_mono)
    next
      case False
      then have "slot_list st' s = slot_list st s" using w by (simp add: slot_list_def)
      moreover have "subseq (published st g k) (published st' g k)"
        by (simp add: st' published_def subseq_rev_drop_many)
      ultimately show ?thesis using sub by (metis subseq_order.order_trans)
    qed
    with g r show "g < sources_started st' \<and> subseq (reads st' s @ slot_list st' s) (published st' g k)"
      by simp
  qed
qed


lemma inv_doc:
  assumes inv: "demux_inv st" and run: "n \<in> running st"
  shows "demux_inv ((loop_doc st n key v)\<lparr>upstream := (upstream st)(n := upstream st n @ [(key, v)])\<rparr>)"
    (is "demux_inv ?st'")
proof -
  note n = running_started [OF inv run]
  show ?thesis
  proof (cases "n \<in> aborted st \<or> dom (listeners st n) = {}")
    case True
    have c: "demux_inv (loop_catch st n)" using inv run by (rule inv_loop_catch)
    have u: "upstream (loop_catch st n) = upstream st" "slot (loop_catch st n) = slot st"
      "sources_started (loop_catch st n) = sources_started st"
      by (simp_all add: loop_catch_def loop_finally_def Let_def)
    have "?st' = (loop_catch st n)\<lparr>upstream := (upstream (loop_catch st n))
                     (n := upstream (loop_catch st n) n @ [(key, v)]),
                   slot := slot (loop_catch st n)\<rparr>"
      using True by (simp add: loop_doc_def u)
    then show ?thesis
      using inv_publish [OF c, of n ?st' "{}" v key "slot (loop_catch st n)"] n
      by (simp add: u)
  next
    case False
    show ?thesis
    proof (cases "listeners st n key")
      case None
      have "?st' = st\<lparr>upstream := (upstream st)(n := upstream st n @ [(key, v)]), slot := slot st\<rparr>"
        using False None by (simp add: loop_doc_def)
      then show ?thesis
        using inv_publish [OF inv n, of ?st' "{}" v key "slot st"] by simp
    next
      case (Some keySinks)
      have e: "?st' = st\<lparr>upstream := (upstream st)(n := upstream st n @ [(key, v)]),
                        slot := (\<lambda>s. if s \<in> keySinks then Some v else slot st s)\<rparr>"
        using False Some by (simp add: loop_doc_def)
      have r: "\<forall>s\<in>keySinks. sink_of st s = Some (n, key)"
        using demux_invD(6) [OF inv] Some by (auto simp: registered_def)
      show ?thesis
        using inv_publish [OF inv n _ r e] by (simp add: e)
    qed
  qed
qed

lemma inv_subscribe:
  assumes inv: "demux_inv st" and fresh: "sink_of st sink = None"
    and a: "addSink st key sink = Some (st', src)"
  shows "demux_inv (st'\<lparr>sink_of := (sink_of st')(sink \<mapsto> (src, key))\<rparr>)" (is "demux_inv ?st2")
proof -
  note d = demux_invD [OF inv]
  have notin: "\<forall>g k S. listeners st g k = Some S \<longrightarrow> sink \<notin> S"
    using d(6) fresh by (auto simp: registered_def)
  have empty: "slot st sink = None" "reads st sink = []"
    using d(7) fresh by (auto simp: unowned_empty_def)
  show ?thesis
  proof (cases "currentSource st")
    case None
    define n where "n = sources_started st"
    from a None have st': "st' = st\<lparr>abortController := Some n, subscribers := Some n,
          listeners := (listeners st)(n := [key \<mapsto> {sink}]), currentSource := Some n,
          running := insert n (running st), sources_started := Suc n\<rparr>" and src: "src = n"
      by (auto simp: addSink_def start_def Let_def n_def)
    have blank: "n \<notin> running st" "n \<notin> aborted st" "listeners st n = Map.empty" "upstream st n = []"
      using d(5) by (auto simp: unstarted_blank_def n_def)
    show ?thesis
    proof (rule demux_invI)
      show "fields_agree ?st2" by (simp add: st' fields_agree_def)
      show "current_alive ?st2" using blank by (simp add: st' current_alive_def)
      show "no_empty_set ?st2" using d(3) by (auto simp: st' no_empty_set_def)
      show "only_current_active ?st2"
        using d(4) None by (auto simp: st' only_current_active_def)
      show "unstarted_blank ?st2"
        using d(5) by (auto simp: st' unstarted_blank_def n_def)
      show "registered ?st2"
        using d(6) notin blank(3)
        by (auto simp: st' src registered_def split: if_splits)
      show "unowned_empty ?st2" using d(7) by (auto simp: st' unowned_empty_def)
      show "reads_published ?st2"
        using d(8) empty
        by (auto simp: st' src reads_published_def slot_list_def published_def n_def less_Suc_eq)
    qed
  next
    case (Some g)
    with d(1) have sub: "subscribers st = Some g" by (simp add: fields_agree_def)
    from d(2) Some have alive: "g \<in> running st" by (simp add: current_alive_def)
    have g: "g < sources_started st" using running_started [OF inv alive] .
    define S where "S = (case listeners st g key of None \<Rightarrow> {sink} | Some existing \<Rightarrow> insert sink existing)"
    from a Some sub have st': "st' = st\<lparr>listeners := (listeners st)(g := (listeners st g)(key \<mapsto> S))\<rparr>"
      and src: "src = g"
      by (auto simp: addSink_def S_def split: option.splits)
    have S: "s \<in> S \<Longrightarrow> s = sink \<or> (\<exists>E. listeners st g key = Some E \<and> s \<in> E)" "S \<noteq> {}" for s
      by (auto simp: S_def split: option.splits)
    show ?thesis
    proof (rule demux_invI)
      show "fields_agree ?st2" using d(1) by (simp add: st' fields_agree_def)
      show "current_alive ?st2" using d(2) by (auto simp: st' current_alive_def)
      show "no_empty_set ?st2" using d(3) S(2) by (auto simp: st' no_empty_set_def)
      show "only_current_active ?st2" using d(4) by (simp add: st' only_current_active_def)
      show "unstarted_blank ?st2" using d(5) g by (auto simp: st' unstarted_blank_def)
      show "registered ?st2"
        unfolding registered_def
      proof (intro allI impI)
        fix g' k T s assume h: "listeners ?st2 g' k = Some T \<and> s \<in> T"
        show "sink_of ?st2 s = Some (g', k)"
        proof (cases "g' = g \<and> k = key")
          case True
          with h have "T = S" by (simp add: st')
          with h S(1) [of s] d(6) True show ?thesis
            by (auto simp: st' src registered_def)
        next
          case False
          with h have l: "listeners st g' k = Some T" by (auto simp: st' split: if_splits)
          with h notin have "s \<noteq> sink" by auto
          with l h d(6) show ?thesis by (auto simp: st' registered_def)
        qed
      qed
      show "unowned_empty ?st2" using d(7) by (auto simp: st' unowned_empty_def)
      show "reads_published ?st2"
        using d(8) empty g
        by (auto simp: st' src reads_published_def slot_list_def published_def)
    qed
  qed
qed

lemma inv_finished:
  assumes "demux_inv s"
  shows "demux_inv (s\<lparr>finished := F\<rparr>)"
proof (rule demux_invI)
  note d = demux_invD [OF assms]
  show "fields_agree (s\<lparr>finished := F\<rparr>)" using d(1) by (simp add: fields_agree_def)
  show "current_alive (s\<lparr>finished := F\<rparr>)" using d(2) by (simp add: current_alive_def)
  show "no_empty_set (s\<lparr>finished := F\<rparr>)" using d(3) by (simp add: no_empty_set_def)
  show "only_current_active (s\<lparr>finished := F\<rparr>)" using d(4) by (simp add: only_current_active_def)
  show "unstarted_blank (s\<lparr>finished := F\<rparr>)" using d(5) by (simp add: unstarted_blank_def)
  show "registered (s\<lparr>finished := F\<rparr>)" using d(6) by (simp add: registered_def)
  show "unowned_empty (s\<lparr>finished := F\<rparr>)" using d(7) by (simp add: unowned_empty_def)
  show "reads_published (s\<lparr>finished := F\<rparr>)" using d(8) by (simp add: reads_published_def slot_list_def published_def)
qed

lemma inv_step_subscribe: "demux_inv st \<Longrightarrow> demux_inv (step gfv st (Subscribe key sink))"
proof -
  assume inv: "demux_inv st"
  show ?thesis
  proof (cases "sink_of st sink")
    case None
    show ?thesis
    proof (cases "addSink st key sink")
      case N2: None
      then show ?thesis using inv None by (simp add: domIff)
    next
      case (Some p)
      obtain st' src where p: "p = (st', src)" by (cases p)
      show ?thesis using inv_subscribe [OF inv None Some [unfolded p]] None Some p
        by (simp add: domIff)
    qed
  next
    case (Some a)
    then show ?thesis using inv by (simp add: domI)
  qed
qed

lemma inv_step_first: "demux_inv st \<Longrightarrow> demux_inv (step gfv st (FirstValue sink))"
  by (cases "sink_of st sink") (simp_all add: domIff inv_first_value)

lemma inv_step_read: "demux_inv st \<Longrightarrow> demux_inv (step gfv st (Read sink))"
  by (cases "slot st sink") (simp_all add: inv_read)

lemma inv_step_unsub: "demux_inv st \<Longrightarrow> demux_inv (step gfv st (Unsubscribe sink))"
  by (cases "sink_of st sink") (simp_all add: inv_finished inv_removeSink split: prod.splits)

lemma inv_step: "demux_inv st \<Longrightarrow> demux_inv (step gfv st e)"
  by (cases e)
    (simp_all only: inv_step_subscribe inv_step_first inv_step_read inv_step_unsub,
     simp_all add: inv_removeSink inv_doc inv_loop_end inv_loop_catch)

lemma inv_run: "demux_inv (run gfv es)"
  by (induction es rule: rev_induct) (simp_all add: run_def inv_initial inv_step)


lemma sinks_in_iff: "x \<in> sinks_in m \<longleftrightarrow> (\<exists>k S. m k = Some S \<and> x \<in> S)"
  by (auto simp: sinks_in_def ran_def)

lemma inv_active:
  assumes "demux_inv st"
  shows "active st = (case currentSource st of None \<Rightarrow> {} | Some g \<Rightarrow> {g})"
proof (cases "currentSource st")
  case None
  have "g \<notin> active st" for g
  proof
    assume "g \<in> active st"
    then have "g \<in> running st \<and> g \<notin> aborted st" by (simp add: active_def)
    with demux_invD(4) [OF assms] have "currentSource st = Some g"
      unfolding only_current_active_def by blast
    with None show False by simp
  qed
  with None show ?thesis by auto
next
  case (Some c)
  with demux_invD(2) [OF assms] have "c \<in> active st"
    unfolding current_alive_def active_def by blast
  moreover have "g = c" if "g \<in> active st" for g
  proof -
    from that have "g \<in> running st \<and> g \<notin> aborted st" by (simp add: active_def)
    with demux_invD(4) [OF assms] have "currentSource st = Some g"
      unfolding only_current_active_def by blast
    with Some show ?thesis by simp
  qed
  ultimately have "active st = {c}" by blast
  with Some show ?thesis by simp
qed

lemma inv_current_subscribed:
  assumes "demux_inv st"
  shows "currentSource st \<noteq> None \<longleftrightarrow> subscribed st \<noteq> {}"
proof
  assume "currentSource st \<noteq> None"
  then obtain g where g: "currentSource st = Some g" by auto
  with demux_invD(1,2) [OF assms]
  have s: "subscribers st = Some g" and d: "dom (listeners st g) \<noteq> {}"
    by (simp_all add: fields_agree_def current_alive_def)
  from d obtain k S where k: "listeners st g k = Some S" by (meson domD ex_in_conv)
  with demux_invD(3) [OF assms] have "S \<noteq> {}" by (auto simp: no_empty_set_def)
  with k have "sinks_in (listeners st g) \<noteq> {}" by (simp add: sinks_in_empty) blast
  with s show "subscribed st \<noteq> {}" by (simp add: subscribed_def)
next
  assume "subscribed st \<noteq> {}"
  then have "subscribers st \<noteq> None" by (auto simp: subscribed_def)
  with demux_invD(1) [OF assms] show "currentSource st \<noteq> None"
    by (simp add: fields_agree_def)
qed

lemma subscribe_first:
  assumes inv: "demux_inv st" and fresh: "sink_of st s = None" and e: "subscribed st = {}"
  shows "currentSource (step gfv st (Subscribe key s)) = Some (sources_started st)"
    and "sources_started (step gfv st (Subscribe key s)) = Suc (sources_started st)"
    and "sink_of (step gfv st (Subscribe key s)) s = Some (sources_started st, key)"
    and "subscribed (step gfv st (Subscribe key s)) = {s}"
    and "running (step gfv st (Subscribe key s)) = insert (sources_started st) (running st)"
proof -
  from inv_current_subscribed [OF inv] e have c: "currentSource st = None" by simp
  from c fresh show "currentSource (step gfv st (Subscribe key s)) = Some (sources_started st)"
    by (simp add: domIff addSink_def start_def Let_def)
  from c fresh show "sources_started (step gfv st (Subscribe key s)) = Suc (sources_started st)"
    by (simp add: domIff addSink_def start_def Let_def)
  from c fresh show "sink_of (step gfv st (Subscribe key s)) s = Some (sources_started st, key)"
    by (simp add: domIff addSink_def start_def Let_def)
  from c fresh show "subscribed (step gfv st (Subscribe key s)) = {s}"
    by (simp add: domIff addSink_def start_def Let_def subscribed_def sinks_in_def)
  from c fresh show "running (step gfv st (Subscribe key s)) = insert (sources_started st) (running st)"
    by (simp add: domIff addSink_def start_def Let_def)
qed

lemma subscribe_later:
  assumes inv: "demux_inv st" and fresh: "sink_of st s = None" and c: "currentSource st = Some g"
  shows "currentSource (step gfv st (Subscribe key s)) = Some g"
    and "sources_started (step gfv st (Subscribe key s)) = sources_started st"
    and "sink_of (step gfv st (Subscribe key s)) s = Some (g, key)"
    and "subscribed (step gfv st (Subscribe key s)) = insert s (subscribed st)"
    and "running (step gfv st (Subscribe key s)) = running st"
proof -
  from demux_invD(1) [OF inv] c have m: "subscribers st = Some g"
    by (simp add: fields_agree_def)
  from c m fresh show "currentSource (step gfv st (Subscribe key s)) = Some g"
    by (simp add: domIff addSink_def split: option.splits)
  from c m fresh show "sources_started (step gfv st (Subscribe key s)) = sources_started st"
    by (simp add: domIff addSink_def split: option.splits)
  from c m fresh show "sink_of (step gfv st (Subscribe key s)) s = Some (g, key)"
    by (simp add: domIff addSink_def split: option.splits)
  from c m fresh show "running (step gfv st (Subscribe key s)) = running st"
    by (simp add: domIff addSink_def split: option.splits)
  show "subscribed (step gfv st (Subscribe key s)) = insert s (subscribed st)"
  proof (cases "listeners st g key")
    case None
    have l: "listeners (step gfv st (Subscribe key s)) g = (listeners st g)(key \<mapsto> {s})"
      and m': "subscribers (step gfv st (Subscribe key s)) = Some g"
      using c m fresh None by (simp_all add: domIff addSink_def)
    have "x \<in> sinks_in ((listeners st g)(key \<mapsto> {s})) \<longleftrightarrow> x = s \<or> x \<in> sinks_in (listeners st g)" for x
    proof
      assume "x \<in> sinks_in ((listeners st g)(key \<mapsto> {s}))"
      then obtain k S where "((listeners st g)(key \<mapsto> {s})) k = Some S" and "x \<in> S"
        unfolding sinks_in_iff by blast
      then show "x = s \<or> x \<in> sinks_in (listeners st g)"
        unfolding sinks_in_iff by (cases "k = key") auto
    next
      assume "x = s \<or> x \<in> sinks_in (listeners st g)"
      then show "x \<in> sinks_in ((listeners st g)(key \<mapsto> {s}))"
      proof
        assume "x = s"
        then have "((listeners st g)(key \<mapsto> {s})) key = Some {s} \<and> x \<in> {s}" by simp
        then show ?thesis unfolding sinks_in_iff by blast
      next
        assume "x \<in> sinks_in (listeners st g)"
        then obtain k S where k: "listeners st g k = Some S" and x: "x \<in> S"
          unfolding sinks_in_iff by blast
        with None have "k \<noteq> key" by auto
        with k x have "((listeners st g)(key \<mapsto> {s})) k = Some S \<and> x \<in> S" by simp
        then show ?thesis unfolding sinks_in_iff by blast
      qed
    qed
    then have "sinks_in ((listeners st g)(key \<mapsto> {s})) = insert s (sinks_in (listeners st g))"
      by blast
    with l m' m show ?thesis by (simp add: subscribed_def)
  next
    case (Some E)
    have l: "listeners (step gfv st (Subscribe key s)) g = (listeners st g)(key \<mapsto> insert s E)"
      and m': "subscribers (step gfv st (Subscribe key s)) = Some g"
      using c m fresh Some by (simp_all add: domIff addSink_def)
    have "x \<in> sinks_in ((listeners st g)(key \<mapsto> insert s E)) \<longleftrightarrow> x = s \<or> x \<in> sinks_in (listeners st g)" for x
    proof
      assume "x \<in> sinks_in ((listeners st g)(key \<mapsto> insert s E))"
      then obtain k S where "((listeners st g)(key \<mapsto> insert s E)) k = Some S" and "x \<in> S"
        unfolding sinks_in_iff by blast
      with Some show "x = s \<or> x \<in> sinks_in (listeners st g)"
        unfolding sinks_in_iff by (cases "k = key") auto
    next
      assume "x = s \<or> x \<in> sinks_in (listeners st g)"
      then show "x \<in> sinks_in ((listeners st g)(key \<mapsto> insert s E))"
      proof
        assume "x = s"
        then have "((listeners st g)(key \<mapsto> insert s E)) key = Some (insert s E) \<and> x \<in> insert s E"
          by simp
        then show ?thesis unfolding sinks_in_iff by blast
      next
        assume "x \<in> sinks_in (listeners st g)"
        then obtain k S where k: "listeners st g k = Some S" and x: "x \<in> S"
          unfolding sinks_in_iff by blast
        show ?thesis
        proof (cases "k = key")
          case True
          with k x Some
          have "((listeners st g)(key \<mapsto> insert s E)) key = Some (insert s E) \<and> x \<in> insert s E"
            by simp
          then show ?thesis unfolding sinks_in_iff by blast
        next
          case False
          with k x have "((listeners st g)(key \<mapsto> insert s E)) k = Some S \<and> x \<in> S" by simp
          then show ?thesis unfolding sinks_in_iff by blast
        qed
      qed
    qed
    then have "sinks_in ((listeners st g)(key \<mapsto> insert s E)) = insert s (sinks_in (listeners st g))"
      by blast
    with l m' m show ?thesis by (simp add: subscribed_def)
  qed
qed

lemma unsubscribe_last:
  assumes inv: "demux_inv st" and one: "subscribed st = {s}" and open_call: "s \<notin> finished st"
  shows "currentSource (step gfv st (Unsubscribe s)) = None"
    and "subscribers (step gfv st (Unsubscribe s)) = None"
    and "abortController (step gfv st (Unsubscribe s)) = None"
    and "\<exists>g. currentSource st = Some g \<and> aborted (step gfv st (Unsubscribe s)) = insert g (aborted st)"
    and "running (step gfv st (Unsubscribe s)) = running st"
proof -
  from one obtain g where m: "subscribers st = Some g" and all: "sinks_in (listeners st g) = {s}"
    by (auto simp: subscribed_def split: option.splits)
  from demux_invD(1) [OF inv] m have c: "currentSource st = Some g" and a: "abortController st = Some g"
    by (simp_all add: fields_agree_def)
  from all obtain k S where k: "listeners st g k = Some S" and s: "s \<in> S"
    using sinks_in_iff [of s "listeners st g"] by auto
  from demux_invD(6) [OF inv] k s have own: "sink_of st s = Some (g, k)"
    by (auto simp: registered_def)
  have only: "S' = {s} \<and> k' = k" if "listeners st g k' = Some S'" for k' S'
  proof -
    from that demux_invD(3) [OF inv] have "S' \<noteq> {}" by (auto simp: no_empty_set_def)
    moreover from that all have "S' \<subseteq> {s}" using sinks_in_iff [of _ "listeners st g"] by blast
    ultimately have S': "S' = {s}" by blast
    with that demux_invD(6) [OF inv] have "sink_of st s = Some (g, k')"
      by (auto simp: registered_def)
    with own S' show ?thesis by simp
  qed
  from only [OF k] have S: "S = {s}" by simp
  have "listeners st g x = None" if "x \<noteq> k" for x
  proof (cases "listeners st g x")
    case (Some S')
    with only [of x S'] that show ?thesis by simp
  qed simp
  then have d: "(listeners st g)(k := None) = Map.empty"
    by (intro ext) simp
  have r: "removeSink st k s =
      st\<lparr>listeners := (listeners st)(g := (listeners st g)(k := None)),
         aborted := insert g (aborted st), subscribers := None, abortController := None,
         currentSource := None\<rparr>"
    using m k S a by (simp add: removeSink_def Let_def d)
  from own open_call r
  show "currentSource (step gfv st (Unsubscribe s)) = None"
    and "subscribers (step gfv st (Unsubscribe s)) = None"
    and "abortController (step gfv st (Unsubscribe s)) = None"
    and "running (step gfv st (Unsubscribe s)) = running st"
    by simp_all
  from own open_call r c
  show "\<exists>g. currentSource st = Some g \<and> aborted (step gfv st (Unsubscribe s)) = insert g (aborted st)"
    by simp
qed

lemma calls_initial: "calls_listed initial_demux"
  by (simp add: calls_listed_def open_listed_def listed_open_def finished_owned_def initial_demux_def)

lemma calls_subscribe:
  assumes inv: "demux_inv st" and c: "calls_listed st"
  shows "calls_listed (step gfv st (Subscribe key s))"
proof (cases "sink_of st s")
  case (Some a)
  with c show ?thesis by (simp add: domI)
next
  case None
  from c have J: "open_listed st" and K: "listed_open st" and L: "finished_owned st"
    by (simp_all add: calls_listed_def)
  from L None have nf: "s \<notin> finished st" by (auto simp: finished_owned_def)
  from demux_invD(1) [OF inv] have fa: "subscribers st = currentSource st"
    by (simp add: fields_agree_def)
  show ?thesis
  proof (cases "currentSource st")
    case N: None
    let ?n = "sources_started st"
    have st': "step gfv st (Subscribe key s) =
        st\<lparr>abortController := Some ?n, subscribers := Some ?n,
           listeners := (listeners st)(?n := [key \<mapsto> {s}]), currentSource := Some ?n,
           running := insert ?n (running st), sources_started := Suc ?n,
           sink_of := (sink_of st)(s \<mapsto> (?n, key))\<rparr>"
      using None N by (simp add: domIff addSink_def start_def Let_def)
    have noopen: "s' \<in> finished st" if "sink_of st s' = Some (g, k)" for s' g k
      using J that fa N by (auto simp: open_listed_def)
    have "open_listed (step gfv st (Subscribe key s))"
      unfolding st' open_listed_def using noopen by (auto split: if_splits)
    moreover have "listed_open (step gfv st (Subscribe key s))"
      unfolding st' listed_open_def using K nf by (auto simp: listed_open_def split: if_splits)
    moreover have "finished_owned (step gfv st (Subscribe key s))"
      unfolding st' finished_owned_def using L by (auto simp: finished_owned_def)
    ultimately show ?thesis by (simp add: calls_listed_def)
  next
    case (Some g)
    with fa have m: "subscribers st = Some g" by simp
    obtain E where st': "step gfv st (Subscribe key s) =
        st\<lparr>listeners := (listeners st)(g := (listeners st g)(key \<mapsto> insert s E)),
           sink_of := (sink_of st)(s \<mapsto> (g, key))\<rparr>"
      and E: "listeners st g key = None \<and> E = {} \<or> listeners st g key = Some E"
      using None Some m by (cases "listeners st g key") (simp_all add: domIff addSink_def)
    have "open_listed (step gfv st (Subscribe key s))"
      unfolding st' open_listed_def
    proof (intro allI impI)
      fix s' g' k'
      assume a: "sink_of (st\<lparr>listeners := (listeners st)(g := (listeners st g)(key \<mapsto> insert s E)),
           sink_of := (sink_of st)(s \<mapsto> (g, key))\<rparr>) s' = Some (g', k') \<and>
         s' \<notin> finished (st\<lparr>listeners := (listeners st)(g := (listeners st g)(key \<mapsto> insert s E)),
           sink_of := (sink_of st)(s \<mapsto> (g, key))\<rparr>)"
      show "subscribers (st\<lparr>listeners := (listeners st)(g := (listeners st g)(key \<mapsto> insert s E)),
           sink_of := (sink_of st)(s \<mapsto> (g, key))\<rparr>) = Some g' \<and>
         (\<exists>S. listeners (st\<lparr>listeners := (listeners st)(g := (listeners st g)(key \<mapsto> insert s E)),
           sink_of := (sink_of st)(s \<mapsto> (g, key))\<rparr>) g' k' = Some S \<and> s' \<in> S)"
      proof (cases "s' = s")
        case True
        with a m show ?thesis by simp
      next
        case False
        with a have "sink_of st s' = Some (g', k')" "s' \<notin> finished st" by simp_all
        with J have "subscribers st = Some g'" and "\<exists>S. listeners st g' k' = Some S \<and> s' \<in> S"
          unfolding open_listed_def by blast+
        with m E show ?thesis by auto
      qed
    qed
    moreover have "listed_open (step gfv st (Subscribe key s))"
      unfolding st' listed_open_def using K nf E by (auto simp: listed_open_def split: if_splits)
    moreover have "finished_owned (step gfv st (Subscribe key s))"
      unfolding st' finished_owned_def using L by (auto simp: finished_owned_def)
    ultimately show ?thesis by (simp add: calls_listed_def)
  qed
qed


lemma calls_first_value: "calls_listed st \<Longrightarrow> calls_listed (step gfv st (FirstValue s))"
  by (simp add: calls_listed_def open_listed_def listed_open_def finished_owned_def)

lemma calls_read: "calls_listed st \<Longrightarrow> calls_listed (step gfv st (Read s))"
  by (cases "slot st s")
    (simp_all add: calls_listed_def open_listed_def listed_open_def finished_owned_def)

lemma calls_doc:
  assumes inv: "demux_inv st" and c: "calls_listed st"
  shows "calls_listed (step gfv st (Doc n key v))"
proof (cases "n \<in> running st")
  case False
  with c show ?thesis by simp
next
  case True
  from demux_invD(1) [OF inv] have fa: "subscribers st = currentSource st"
    by (simp add: fields_agree_def)
  have keep: "subscribers st \<noteq> Some n" if "n \<in> aborted st \<or> dom (listeners st n) = {}"
    using that demux_invD(2) [OF inv] fa unfolding current_alive_def by auto
  have f: "sink_of (step gfv st (Doc n key v)) = sink_of st"
    "finished (step gfv st (Doc n key v)) = finished st"
    "listeners (step gfv st (Doc n key v)) = listeners st"
    "subscribers (step gfv st (Doc n key v)) = subscribers st"
    using True keep
    by (auto simp: loop_doc_def loop_catch_def loop_finally_def Let_def split: option.splits)
  from c show ?thesis
    unfolding calls_listed_def open_listed_def listed_open_def finished_owned_def f .
qed

lemma calls_unsubscribe:
  assumes inv: "demux_inv st" and c: "calls_listed st"
  shows "calls_listed (step gfv st (Unsubscribe s))"
proof (cases "sink_of st s")
  case None
  with c show ?thesis by simp
next
  case (Some a)
  obtain g k where own: "sink_of st s = Some (g, k)" using Some by (cases a) simp
  show ?thesis
  proof (cases "s \<in> finished st")
    case True
    with own c show ?thesis by simp
  next
    case False
    from c have J: "open_listed st" and K: "listed_open st" and L: "finished_owned st"
      by (simp_all add: calls_listed_def)
    from J own False obtain S where m: "subscribers st = Some g"
      and S: "listeners st g k = Some S" and sS: "s \<in> S"
      unfolding open_listed_def by blast
    note reg = demux_invD(6) [OF inv, unfolded registered_def, rule_format]
    define mp where "mp = (if S - {s} = {} then (listeners st g)(k := None)
                           else (listeners st g)(k \<mapsto> S - {s}))"
    have fr: "sink_of (removeSink st k s) = sink_of st"
      "finished (removeSink st k s) = finished st"
      "listeners (removeSink st k s) = (listeners st)(g := mp)"
      using m S by (simp_all add: removeSink_def Let_def mp_def)
    have sub: "subscribers (removeSink st k s) = (if dom mp = {} then None else Some g)"
      using m S by (simp add: removeSink_def Let_def mp_def)
    have st': "step gfv st (Unsubscribe s) = (removeSink st k s)\<lparr>finished := insert s (finished st)\<rparr>"
      using own False by simp
    have "open_listed (step gfv st (Unsubscribe s))"
      unfolding open_listed_def
    proof (intro allI impI)
      fix s' g' k'
      assume "sink_of (step gfv st (Unsubscribe s)) s' = Some (g', k')
              \<and> s' \<notin> finished (step gfv st (Unsubscribe s))"
      then have o: "sink_of st s' = Some (g', k')" and ne: "s' \<noteq> s" and nf: "s' \<notin> finished st"
        unfolding st' by (simp_all add: fr)
      from J o nf obtain S' where m': "subscribers st = Some g'"
        and S': "listeners st g' k' = Some S'" and sS': "s' \<in> S'"
        unfolding open_listed_def by blast
      from m m' have g': "g' = g" by simp
      have in_map: "\<exists>T. mp k' = Some T \<and> s' \<in> T"
      proof (cases "k' = k")
        case True
        with S S' g' have "S' = S" by simp
        with sS' ne True show ?thesis by (auto simp: mp_def)
      next
        case False
        with S' g' sS' show ?thesis by (auto simp: mp_def)
      qed
      then have "dom mp \<noteq> {}" by blast
      with sub have "subscribers (step gfv st (Unsubscribe s)) = Some g'"
        unfolding st' by (simp add: g' del: fun_upd_apply)
      moreover from in_map
      have "\<exists>T. listeners (step gfv st (Unsubscribe s)) g' k' = Some T \<and> s' \<in> T"
        unfolding st' by (simp add: fr g')
      ultimately show "subscribers (step gfv st (Unsubscribe s)) = Some g' \<and>
         (\<exists>T. listeners (step gfv st (Unsubscribe s)) g' k' = Some T \<and> s' \<in> T)" by simp
    qed
    moreover have "listed_open (step gfv st (Unsubscribe s))"
      unfolding listed_open_def
    proof (intro allI impI)
      fix g' k' T x
      assume a: "listeners (step gfv st (Unsubscribe s)) g' k' = Some T \<and> x \<in> T"
      then have old: "\<exists>T'. listeners st g' k' = Some T' \<and> x \<in> T'"
        using S unfolding st' by (auto simp: fr mp_def split: if_splits)
      with K have "x \<notin> finished st" unfolding listed_open_def by blast
      moreover have "x \<noteq> s"
      proof
        assume "x = s"
        with old reg own have "g' = g \<and> k' = k" by fastforce
        with a \<open>x = s\<close> show False unfolding st' by (auto simp: fr mp_def split: if_splits)
      qed
      ultimately show "x \<notin> finished (step gfv st (Unsubscribe s))" unfolding st' by (simp add: fr)
    qed
    moreover have "finished_owned (step gfv st (Unsubscribe s))"
      using L own unfolding st' by (auto simp: finished_owned_def fr)
    ultimately show ?thesis by (simp add: calls_listed_def)
  qed
qed

lemma calls_step:
  "demux_inv st \<Longrightarrow> calls_listed st \<Longrightarrow> calm e \<Longrightarrow> calls_listed (step gfv st e)"
  by (cases e)
    (simp_all only: calls_subscribe calls_first_value calls_read calls_doc calls_unsubscribe,
     simp_all add: calm_def)

lemma calls_run: "\<forall>e\<in>set es. calm e \<Longrightarrow> calls_listed (run gfv es)"
proof (induction es rule: rev_induct)
  case Nil
  show ?case by (simp add: run_def calls_initial)
next
  case (snoc e es)
  then have "calls_listed (run gfv es)" "calm e" by simp_all
  with calls_step [OF inv_run] have "calls_listed (step gfv (run gfv es) e)" by blast
  then show ?case by (simp add: run_def)
qed

lemma subscribed_open:
  assumes inv: "demux_inv st" and c: "calls_listed st"
  shows "s \<in> subscribed st \<longleftrightarrow> open_call st s"
proof
  assume "s \<in> subscribed st"
  then obtain g k S where "listeners st g k = Some S" "s \<in> S"
    by (auto simp: subscribed_def sinks_in_iff split: option.splits)
  with demux_invD(6) [OF inv] c show "open_call st s"
    unfolding registered_def calls_listed_def listed_open_def open_call_def by fastforce
next
  assume "open_call st s"
  then obtain g k where "sink_of st s = Some (g, k)" "s \<notin> finished st"
    by (auto simp: open_call_def)
  with c have "subscribers st = Some g \<and> (\<exists>S. listeners st g k = Some S \<and> s \<in> S)"
    unfolding calls_listed_def open_listed_def by blast
  then show "s \<in> subscribed st" by (auto simp: subscribed_def sinks_in_iff)
qed

lemma run_snoc: "run gfv (es @ [e]) = step gfv (run gfv es) e"
  by (simp add: run_def)

lemmas demux_eval = run_def initial_demux_def addSink_def start_def removeSink_def loop_doc_def
  loop_catch_def loop_end_def loop_finally_def received_def first_of_def demux_events_def
  sinks_in_def subscribed_def published_def active_def Let_def

lemma demux_events_run:
  "sink_of (run first_of demux_events) 0 = Some (0, ''u1'')"
  "sink_of (run first_of demux_events) 1 = Some (0, ''u2'')"
  "sink_of (run first_of demux_events) 2 = Some (0, ''u1'')"
  "received first_of (run first_of demux_events) 0 = [''u1'', ''b'', ''c'']"
  "received first_of (run first_of demux_events) 1 = [''u2'', ''x'']"
  "received first_of (run first_of demux_events) 2 = [''u1'', ''c'']"
  "published (run first_of demux_events) 0 ''u1'' = [''a'', ''b'', ''c'']"
  "published (run first_of demux_events) 0 ''u2'' = [''x'']"
  by (simp_all add: demux_eval)

text \<open>
  C7. In every state that a demultiplexer reaches, by any sequence of events,
  at most one upstream source is active (started, its loop not ended, its
  controller not aborted), and it is the current one: \<^verbatim>\<open>currentSource\<close>,
  \<^verbatim>\<open>subscribers\<close> and \<^verbatim>\<open>abortController\<close> are set together, and they are set
  exactly when the current map holds a sink. While no source ends or fails, the
  sinks of the current map are those of the open \<^verbatim>\<open>subscribe\<close> calls. A
  \<^verbatim>\<open>subscribe\<close> call joins the current map; it starts a source exactly when
  there is no subscriber, and otherwise gets the current source, for any key,
  without a new source being started. When the only subscriber leaves, the
  controller of the current source is aborted and the three fields are cleared,
  so that no source is active. The loop of an aborted source may still be
  running, until its source reacts to the signal.
\<close>

theorem demux_single_upstream:
  "(let st = run getFirstValue es in
      active st = (case currentSource st of None \<Rightarrow> {} | Some g \<Rightarrow> {g})
    \<and> subscribers st = currentSource st \<and> abortController st = currentSource st
    \<and> (currentSource st \<noteq> None \<longleftrightarrow> subscribed st \<noteq> {})
    \<and> ((\<forall>e\<in>set es. calm e) \<longrightarrow> (\<forall>c. c \<in> subscribed st \<longleftrightarrow> open_call st c))
    \<and> (sink_of st s = None \<longrightarrow>
         (let st' = step getFirstValue st (Subscribe key s) in
            subscribed st' = insert s (subscribed st)
          \<and> (subscribed st = {} \<longrightarrow>
                currentSource st' = Some (sources_started st)
              \<and> sink_of st' s = Some (sources_started st, key)
              \<and> sources_started st' = Suc (sources_started st)
              \<and> running st' = insert (sources_started st) (running st))
          \<and> (\<forall>g. currentSource st = Some g \<longrightarrow>
                currentSource st' = Some g
              \<and> sink_of st' s = Some (g, key)
              \<and> sources_started st' = sources_started st
              \<and> running st' = running st)))
    \<and> (subscribed st = {s} \<and> s \<notin> finished st \<longrightarrow>
         (let st' = step getFirstValue st (Unsubscribe s) in
            currentSource st' = None \<and> subscribers st' = None \<and> abortController st' = None
          \<and> active st' = {}
          \<and> (\<exists>g. currentSource st = Some g \<and> aborted st' = insert g (aborted st)))))"
proof -
  define st where "st = run getFirstValue es"
  have inv: "demux_inv st" by (simp add: st_def inv_run)
  have 1: "active st = (case currentSource st of None \<Rightarrow> {} | Some g \<Rightarrow> {g})"
    by (rule inv_active [OF inv])
  have 2: "subscribers st = currentSource st \<and> abortController st = currentSource st"
    using demux_invD(1) [OF inv] by (simp add: fields_agree_def)
  have 3: "currentSource st \<noteq> None \<longleftrightarrow> subscribed st \<noteq> {}"
    by (rule inv_current_subscribed [OF inv])
  have 4: "subscribed (step getFirstValue st (Subscribe key s)) = insert s (subscribed st)"
    if "sink_of st s = None"
  proof (cases "currentSource st")
    case None
    with 3 have "subscribed st = {}" by simp
    with subscribe_first(4) [OF inv that this] show ?thesis by simp
  next
    case (Some g)
    then show ?thesis by (rule subscribe_later(4) [OF inv that])
  qed
  have 6: "c \<in> subscribed st \<longleftrightarrow> open_call st c" if "\<forall>e\<in>set es. calm e" for c
    using subscribed_open [OF inv] calls_run [OF that, of getFirstValue]
    by (simp add: st_def)
  have 5: "active (step getFirstValue st (Unsubscribe s)) = {}"
    if "subscribed st = {s}" "s \<notin> finished st"
    using inv_active [OF inv_step [OF inv], of getFirstValue "Unsubscribe s"]
      unsubscribe_last(1) [OF inv that, of getFirstValue]
    by simp
  show ?thesis
    unfolding Let_def st_def [symmetric]
    using 1 2 3 4 5 6 subscribe_first [OF inv, of s getFirstValue key]
      subscribe_later [OF inv, of s _ getFirstValue key]
      unsubscribe_last [OF inv, of s getFirstValue]
    by (intro conjI impI allI) simp_all
qed


theorem demux_single_upstream_witness:
  "currentSource (run first_of []) = None
   \<and> currentSource (run first_of [Subscribe ''u1'' 0]) = Some 0
   \<and> subscribed (run first_of [Subscribe ''u1'' 0]) = {0}
   \<and> open_call (run first_of [Subscribe ''u1'' 0]) 0
   \<and> currentSource (run first_of [Subscribe ''u1'' 0, Subscribe ''u2'' 1]) = Some 0
   \<and> sources_started (run first_of [Subscribe ''u1'' 0, Subscribe ''u2'' 1]) = 1
   \<and> subscribed (run first_of [Subscribe ''u1'' 0, Subscribe ''u2'' 1]) = {0, 1}
   \<and> active (run first_of [Subscribe ''u1'' 0, Subscribe ''u2'' 1]) = {0}
   \<and> currentSource (run first_of [Subscribe ''u1'' 0, Unsubscribe 0]) = None
   \<and> aborted (run first_of [Subscribe ''u1'' 0, Unsubscribe 0]) = {0}
   \<and> active (run first_of [Subscribe ''u1'' 0, Unsubscribe 0]) = {}"
proof -
  note t0 = demux_single_upstream [of first_of "[]" 0 "''u1''", unfolded Let_def]
  note t1 = demux_single_upstream [of first_of "[Subscribe ''u1'' 0]" 1 "''u2''", unfolded Let_def]
  note t2 = demux_single_upstream [of first_of "[Subscribe ''u1'' 0]" 0 "''u1''", unfolded Let_def]
  note t3 = demux_single_upstream [of first_of "[Subscribe ''u1'' 0, Subscribe ''u2'' 1]" 0 "''u1''",
      unfolded Let_def]
  have r1: "run first_of [Subscribe ''u1'' 0] = step first_of (run first_of []) (Subscribe ''u1'' 0)"
    and r2: "run first_of [Subscribe ''u1'' 0, Subscribe ''u2'' 1]
             = step first_of (run first_of [Subscribe ''u1'' 0]) (Subscribe ''u2'' 1)"
    and r3: "run first_of [Subscribe ''u1'' 0, Unsubscribe 0]
             = step first_of (run first_of [Subscribe ''u1'' 0]) (Unsubscribe 0)"
    by (simp_all add: run_def)
  have h0: "sink_of (run first_of []) 0 = None" "subscribed (run first_of []) = {}"
    "sources_started (run first_of []) = 0" "currentSource (run first_of []) = None"
    by (simp_all add: run_def initial_demux_def subscribed_def)
  from t0 h0 have c1: "currentSource (run first_of [Subscribe ''u1'' 0]) = Some 0"
    and s1: "subscribed (run first_of [Subscribe ''u1'' 0]) = {0}"
    and n1: "sources_started (run first_of [Subscribe ''u1'' 0]) = 1"
    unfolding r1 by simp_all
  have h1: "sink_of (run first_of [Subscribe ''u1'' 0]) 1 = None"
    "0 \<notin> finished (run first_of [Subscribe ''u1'' 0])"
    "aborted (run first_of [Subscribe ''u1'' 0]) = {}"
    by (simp_all add: run_def initial_demux_def addSink_def start_def Let_def)
  from t1 h1 c1 s1 n1
  have c2: "currentSource (run first_of [Subscribe ''u1'' 0, Subscribe ''u2'' 1]) = Some 0"
    and n2: "sources_started (run first_of [Subscribe ''u1'' 0, Subscribe ''u2'' 1]) = 1"
    and s2: "subscribed (run first_of [Subscribe ''u1'' 0, Subscribe ''u2'' 1]) = {0, 1}"
    unfolding r2 by auto
  have "\<forall>e\<in>set [Subscribe ''u1'' 0 :: string event]. calm e" by (simp add: calm_def)
  moreover from t1
  have "(\<forall>e\<in>set [Subscribe ''u1'' 0 :: string event]. calm e) \<longrightarrow>
        (\<forall>c. c \<in> subscribed (run first_of [Subscribe ''u1'' 0])
             \<longleftrightarrow> open_call (run first_of [Subscribe ''u1'' 0]) c)"
    by blast
  ultimately have "0 \<in> subscribed (run first_of [Subscribe ''u1'' 0])
        \<longleftrightarrow> open_call (run first_of [Subscribe ''u1'' 0]) 0"
    by blast
  with s1 have o1: "open_call (run first_of [Subscribe ''u1'' 0]) 0" by simp
  from t3 c2 have a2: "active (run first_of [Subscribe ''u1'' 0, Subscribe ''u2'' 1]) = {0}"
    by simp
  from t2 h1 s1 c1
  have u: "currentSource (run first_of [Subscribe ''u1'' 0, Unsubscribe 0]) = None"
    "aborted (run first_of [Subscribe ''u1'' 0, Unsubscribe 0]) = {0}"
    "active (run first_of [Subscribe ''u1'' 0, Unsubscribe 0]) = {}"
    unfolding r3 by simp_all
  from h0 c1 s1 o1 c2 n2 s2 a2 u show ?thesis by simp
qed

text \<open>
  C8. In every state that a demultiplexer reaches, what a \<^verbatim>\<open>subscribe(key, _)\<close>
  call has yielded is either nothing yet, or \<^verbatim>\<open>getFirstValue(key)\<close> of the source
  that \<^verbatim>\<open>addSink\<close> returned to it, followed by a subsequence of the values this
  source has produced under the key of the call, in their order; so every value
  after the first comes from a document with this key.
\<close>

theorem subscriber_receives_own_key:
  "(let st = run getFirstValue es in
      \<forall>g k. sink_of st s = Some (g, k) \<longrightarrow>
        received getFirstValue st s = []
      \<or> (\<exists>vs. received getFirstValue st s = getFirstValue g k # vs
              \<and> subseq vs (published st g k)
              \<and> (\<forall>v\<in>set vs. (k, v) \<in> set (upstream st g))))"
proof -
  define st where "st = run getFirstValue es"
  have inv: "demux_inv st" by (simp add: st_def inv_run)
  have "received getFirstValue st s = []
      \<or> (\<exists>vs. received getFirstValue st s = getFirstValue g k # vs
              \<and> subseq vs (published st g k)
              \<and> (\<forall>v\<in>set vs. (k, v) \<in> set (upstream st g)))"
    if own: "sink_of st s = Some (g, k)" for g k
  proof (cases "s \<in> first_sent st")
    case False
    with own show ?thesis by (simp add: received_def)
  next
    case True
    with own have r: "received getFirstValue st s = getFirstValue g k # reads st s"
      by (simp add: received_def)
    from demux_invD(8) [OF inv] own
    have "subseq (reads st s @ slot_list st s) (published st g k)"
      by (simp add: reads_published_def)
    then have sub: "subseq (reads st s) (published st g k)" by (rule subseq_append_left)
    have "(k, v) \<in> set (upstream st g)" if "v \<in> set (reads st s)" for v
    proof -
      from that sub have "v \<in> set (published st g k)"
        by (auto elim: list_emb_set)
      then show ?thesis by (auto simp: published_def)
    qed
    with r sub show ?thesis by blast
  qed
  then show ?thesis unfolding Let_def st_def [symmetric] by blast
qed

theorem subscriber_receives_own_key_witness:
  "sink_of (run first_of demux_events) 2 = Some (0, ''u1'')
   \<and> received first_of (run first_of demux_events) 2 = [''u1'', ''c'']
   \<and> published (run first_of demux_events) 0 ''u1'' = [''a'', ''b'', ''c'']
   \<and> subseq [''c''] (published (run first_of demux_events) 0 ''u1'')
   \<and> (''u1'', ''c'') \<in> set (upstream (run first_of demux_events) 0)"
proof -
  note t = subscriber_receives_own_key [of first_of demux_events 2, unfolded Let_def]
  from t demux_events_run(3)
  have "received first_of (run first_of demux_events) 2 = []
      \<or> (\<exists>vs. received first_of (run first_of demux_events) 2 = first_of 0 ''u1'' # vs
              \<and> subseq vs (published (run first_of demux_events) 0 ''u1'')
              \<and> (\<forall>v\<in>set vs. (''u1'', v) \<in> set (upstream (run first_of demux_events) 0)))"
    by blast
  then have "subseq [''c''] (published (run first_of demux_events) 0 ''u1'')
     \<and> (''u1'', ''c'') \<in> set (upstream (run first_of demux_events) 0)"
    unfolding demux_events_run(6) by auto
  with demux_events_run show ?thesis by simp
qed

section \<open>Frame of updateBucketPosition\<close>

lemma updateBucketPosition_positions:
  "bucketDataPositions (updateBucketPosition s b n h) =
     (case bucketDataPositions s b of
        Some state \<Rightarrow> (bucketDataPositions s)(b \<mapsto> state\<lparr>start_op_id := n\<rparr>)
      | None \<Rightarrow> bucketDataPositions s)"
  by (simp add: updateBucketPosition_def Let_def split: option.split)

lemma updateBucketPosition_pending:
  "pendingBucketDownloads (updateBucketPosition s b n h) =
     (if h then pendingBucketDownloads s else pendingBucketDownloads s - {b})"
  by (simp add: updateBucketPosition_def Let_def split: option.split)

lemma updateBucketPosition_others:
  "lastChecksums (updateBucketPosition s b n h) = lastChecksums s"
  "lastWriteCheckpoint (updateBucketPosition s b n h) = lastWriteCheckpoint s"
  by (simp_all add: updateBucketPosition_def Let_def split: option.split)

text \<open>
  C9. A call \<^verbatim>\<open>updateBucketPosition({bucket, nextAfter, hasMore})\<close> changes the entry
  of the named bucket only: a tracked bucket gets \<^verbatim>\<open>start_op_id = nextAfter\<close> and
  keeps its description, an untracked one stays untracked; the bucket leaves
  \<^verbatim>\<open>pendingBucketDownloads\<close> exactly when \<^verbatim>\<open>hasMore\<close> is false; the position and
  the pending membership of every other bucket, \<^verbatim>\<open>lastChecksums\<close> and
  \<^verbatim>\<open>lastWriteCheckpoint\<close> are unchanged; and a call for an untracked bucket with
  \<^verbatim>\<open>hasMore = true\<close> changes nothing at all.
\<close>

theorem updateBucketPosition_frame:
  "(let s' = updateBucketPosition s b nextAfter hasMore in
       (\<forall>st. bucketDataPositions s b = Some st \<longrightarrow>
            bucketDataPositions s' b = Some (st\<lparr>start_op_id := nextAfter\<rparr>))
     \<and> (bucketDataPositions s b = None \<longrightarrow> bucketDataPositions s' b = None)
     \<and> (b \<in> pendingBucketDownloads s' \<longleftrightarrow> b \<in> pendingBucketDownloads s \<and> hasMore)
     \<and> (\<forall>b'. b' \<noteq> b \<longrightarrow>
             bucketDataPositions s' b' = bucketDataPositions s b'
           \<and> (b' \<in> pendingBucketDownloads s' \<longleftrightarrow> b' \<in> pendingBucketDownloads s))
     \<and> lastChecksums s' = lastChecksums s
     \<and> lastWriteCheckpoint s' = lastWriteCheckpoint s
     \<and> (bucketDataPositions s b = None \<and> hasMore \<longrightarrow> s' = s))"
  unfolding Let_def
  by (auto simp: updateBucketPosition_positions updateBucketPosition_pending
      updateBucketPosition_others updateBucketPosition_def split: option.splits)

theorem updateBucketPosition_frame_witness:
  "bucketDataPositions frame_state ''a'' = Some \<lparr>description = None, start_op_id = 3\<rparr>
   \<and> bucketDataPositions (updateBucketPosition frame_state ''a'' 9 False) ''a''
       = Some \<lparr>description = None, start_op_id = 9\<rparr>
   \<and> ''a'' \<notin> pendingBucketDownloads (updateBucketPosition frame_state ''a'' 9 False)
   \<and> ''b'' \<noteq> ''a''
   \<and> bucketDataPositions (updateBucketPosition frame_state ''a'' 9 False) ''b''
       = Some \<lparr>description = None, start_op_id = 5\<rparr>
   \<and> ''b'' \<in> pendingBucketDownloads (updateBucketPosition frame_state ''a'' 9 False)
   \<and> bucketDataPositions frame_state ''c'' = None
   \<and> updateBucketPosition frame_state ''c'' 9 True = frame_state"
proof -
  have a: "bucketDataPositions frame_state ''a'' = Some \<lparr>description = None, start_op_id = 3\<rparr>"
    and b: "bucketDataPositions frame_state ''b'' = Some \<lparr>description = None, start_op_id = 5\<rparr>"
    and c: "bucketDataPositions frame_state ''c'' = None"
    and p: "pendingBucketDownloads frame_state = {''a'', ''b''}"
    by (simp_all add: frame_state_def)
  have ne: "''b'' \<noteq> ''a''" by simp
  note f1 = updateBucketPosition_frame [of frame_state "''a''" 9 False, unfolded Let_def]
  note f2 = updateBucketPosition_frame [of frame_state "''c''" 9 True, unfolded Let_def]
  from f1 a have "bucketDataPositions (updateBucketPosition frame_state ''a'' 9 False) ''a''
       = Some \<lparr>description = None, start_op_id = 9\<rparr>" by simp
  moreover from f1 have "''a'' \<notin> pendingBucketDownloads (updateBucketPosition frame_state ''a'' 9 False)"
    by simp
  moreover from f1 ne b p
  have "bucketDataPositions (updateBucketPosition frame_state ''a'' 9 False) ''b''
       = Some \<lparr>description = None, start_op_id = 5\<rparr>
     \<and> ''b'' \<in> pendingBucketDownloads (updateBucketPosition frame_state ''a'' 9 False)"
    by simp
  moreover from f2 c have "updateBucketPosition frame_state ''c'' 9 True = frame_state" by simp
  ultimately show ?thesis using a c ne by simp
qed

end
